theory Spec2Isabelle
  imports Main "HOL-Library.AList" "HOL-Library.Word"
begin

section \<open>The file system the synchronisation engine works on\<close>

text \<open>
  The engine of \<^verbatim>\<open>file_sync_extended.py\<close> and \<^verbatim>\<open>file_sync_simple.py\<close> only talks
  to the operating system: \<^verbatim>\<open>os.walk\<close>, \<^verbatim>\<open>os.path.exists\<close>, \<^verbatim>\<open>os.stat\<close>,
  \<^verbatim>\<open>os.makedirs\<close>, \<^verbatim>\<open>shutil.copy2\<close>, \<^verbatim>\<open>os.remove\<close>, \<^verbatim>\<open>shutil.rmtree\<close> and the
  reading of a file for hashing. The model gives these calls a meaning on two directory
  trees, the source tree and the replica tree. A path is the list of names below the
  root of its tree, so \<^verbatim>\<open>os.path.join(replica_dir, relative_path)\<close> is the same list
  read in the replica tree. The two roots are taken to be disjoint (neither lies inside
  the other); symbolic links are not modelled.

  A regular file carries its modification time and its bytes (its size is the number of
  bytes). A directory carries the size and modification time that \<^verbatim>\<open>os.stat\<close> reports
  for it, and its entries in the order \<^verbatim>\<open>os.scandir\<close> lists them.
\<close>

type_synonym path = "string list"
type_synonym bytes = "8 word list"
type_synonym digest = "64 word"

datatype node =
    File int bytes
  | Dir nat int "(string \<times> node) list"

datatype error =
    FileNotFoundError
  | NotADirectoryError
  | IsADirectoryError
  | FileExistsError
  | OSError

record stat_result =
  st_size :: nat
  st_mtime :: int

fun is_dir :: "node \<Rightarrow> bool" where
  "is_dir (Dir s m es) = True"
| "is_dir (File m c) = False"

fun lookup :: "node \<Rightarrow> path \<Rightarrow> node option" where
  "lookup n [] = Some n"
| "lookup (File m c) (x # xs) = None"
| "lookup (Dir s m es) (x # xs) =
     (case map_of es x of None \<Rightarrow> None | Some c \<Rightarrow> lookup c xs)"

definition os_path_exists :: "node \<Rightarrow> path \<Rightarrow> bool" where
  "os_path_exists t p = (lookup t p \<noteq> None)"

definition os_stat :: "node \<Rightarrow> path \<Rightarrow> error + stat_result" where
  "os_stat t p =
     (case lookup t p of
        None \<Rightarrow> Inl FileNotFoundError
      | Some (File m c) \<Rightarrow> Inr \<lparr>st_size = length c, st_mtime = m\<rparr>
      | Some (Dir s m es) \<Rightarrow> Inr \<lparr>st_size = s, st_mtime = m\<rparr>)"

text \<open>
  \<^verbatim>\<open>os.walk(top)\<close>, top-down: a directory is reported with the names of its
  subdirectories and of its other entries, then each subdirectory is walked in turn.
  Walking something that is not a directory reports nothing.
\<close>

definition dir_names :: "(string \<times> node) list \<Rightarrow> string list" where
  "dir_names es = map fst (filter (\<lambda>e. is_dir (snd e)) es)"

definition file_names :: "(string \<times> node) list \<Rightarrow> string list" where
  "file_names es = map fst (filter (\<lambda>e. \<not> is_dir (snd e)) es)"

fun os_walk :: "path \<Rightarrow> node \<Rightarrow> (path \<times> string list \<times> string list) list"
  and os_walk_entries :: "path \<Rightarrow> (string \<times> node) list \<Rightarrow> (path \<times> string list \<times> string list) list"
where
  "os_walk root (File m c) = []"
| "os_walk root (Dir s m es) = (root, dir_names es, file_names es) # os_walk_entries root es"
| "os_walk_entries root [] = []"
| "os_walk_entries root (e # es) = os_walk (root @ [fst e]) (snd e) @ os_walk_entries root es"

text \<open>
  A directory created by the engine: empty, stamped with the time of its creation. The
  size a file system reports for an empty directory is a property of the file system.
\<close>

definition new_dir_size :: nat where
  "new_dir_size = 4096"

fun new_dirs :: "int \<Rightarrow> path \<Rightarrow> node" where
  "new_dirs now [] = Dir new_dir_size now []"
| "new_dirs now (x # xs) = Dir new_dir_size now [(x, new_dirs now xs)]"

text \<open>
  \<^verbatim>\<open>os.makedirs(path)\<close>: creates the directory and every missing directory above it.
  It raises when the path exists already, and when a name above it is not a directory.
  Adding an entry to a directory sets that directory's modification time.
\<close>

fun os_makedirs :: "int \<Rightarrow> path \<Rightarrow> node \<Rightarrow> error + node" where
  "os_makedirs now [] n = Inl FileExistsError"
| "os_makedirs now (x # xs) (File m c) = Inl NotADirectoryError"
| "os_makedirs now (x # xs) (Dir s m es) =
     (case map_of es x of
        None \<Rightarrow> Inr (Dir s now (es @ [(x, new_dirs now xs)]))
      | Some c \<Rightarrow>
          (case os_makedirs now xs c of
             Inl e \<Rightarrow> Inl e
           | Inr c' \<Rightarrow> Inr (Dir s m (AList.update x c' es))))"

text \<open>
  Writing a regular file at a path: the directory above must exist, and the path must
  not name a directory. A new name sets the modification time of the directory it is
  added to; replacing the bytes of an existing file does not.
\<close>

fun write_file :: "int \<Rightarrow> path \<Rightarrow> node \<Rightarrow> node \<Rightarrow> error + node" where
  "write_file now [] f n = Inl IsADirectoryError"
| "write_file now (x # xs) f (File m c) = Inl NotADirectoryError"
| "write_file now [x] f (Dir s m es) =
     (case map_of es x of
        None \<Rightarrow> Inr (Dir s now (es @ [(x, f)]))
      | Some c \<Rightarrow> if is_dir c then Inl IsADirectoryError else Inr (Dir s m (AList.update x f es)))"
| "write_file now (x # y # ys) f (Dir s m es) =
     (case map_of es x of
        None \<Rightarrow> Inl FileNotFoundError
      | Some c \<Rightarrow>
          (case write_file now (y # ys) f c of
             Inl e \<Rightarrow> Inl e
           | Inr c' \<Rightarrow> Inr (Dir s m (AList.update x c' es))))"

section \<open>The state of a run\<close>

text \<open>
  What can go wrong in one call of \<^verbatim>\<open>shutil.copy2\<close> beyond what the trees decide: the
  call raises before it writes; it raises after it has written some bytes; or it returns
  normally and the destination holds other bytes than the source (silent corruption).
  The state carries the list of faults still to come, one taken by each call; when the
  list is empty the calls are faultless.
\<close>

datatype fault =
    NoFault
  | CopyError
  | PartialWrite bytes
  | Corrupt bytes

datatype side = Source | Replica

datatype message =
    Copied path path
  | Updated path
  | Failed path nat
  | HashMismatch path path
  | ErrorCopying path path error
  | FileRemoved path
  | DirectoryRemoved path

text \<open>
  The trace records, in order, every call that changes a tree, every file read for
  hashing, and every message given to the logger.
\<close>

datatype event =
    Makedirs path
  | Copy2 path path
  | Xxhash side path
  | Remove path
  | Rmtree path
  | LogInfo message
  | LogError message

record world =
  src :: node
  rep :: node
  clock :: int
  faults :: "fault list"
  trace :: "event list"

definition emit :: "event \<Rightarrow> world \<Rightarrow> world" where
  "emit e w = w\<lparr>trace := trace w @ [e]\<rparr>"

definition tree :: "side \<Rightarrow> world \<Rightarrow> node" where
  "tree sd w = (case sd of Source \<Rightarrow> src w | Replica \<Rightarrow> rep w)"

section \<open>The engine\<close>

text \<open>
  \<^verbatim>\<open>calculate_xxhash\<close>: the file is read in blocks of 4096 bytes into a streaming 64-bit
  xxHash, so the digest is the hash of the whole content. The hash function of the
  \<^verbatim>\<open>xxhash\<close> package is the parameter \<open>H\<close>. Opening a directory or a missing path
  raises.
\<close>

definition calculate_xxhash :: "(bytes \<Rightarrow> digest) \<Rightarrow> side \<Rightarrow> path \<Rightarrow> world \<Rightarrow> (error + digest) \<times> world" where
  "calculate_xxhash H sd file_path w =
     (case lookup (tree sd w) file_path of
        None \<Rightarrow> (Inl FileNotFoundError, emit (Xxhash sd file_path) w)
      | Some (Dir s m es) \<Rightarrow> (Inl IsADirectoryError, emit (Xxhash sd file_path) w)
      | Some (File m c) \<Rightarrow> (Inr (H c), emit (Xxhash sd file_path) w))"

text \<open>
  \<^verbatim>\<open>modified_check\<close> of the extended variant: \<open>True\<close> means unchanged, \<open>False\<close> means
  the file has to be copied.
\<close>

definition modified_check :: "world \<Rightarrow> path \<Rightarrow> path \<Rightarrow> error + bool" where
  "modified_check w source_file replica_file =
     (if \<not> os_path_exists (rep w) replica_file then Inr False
      else
        (case os_stat (src w) source_file of
           Inl e \<Rightarrow> Inl e
         | Inr source_stat \<Rightarrow>
             (case os_stat (rep w) replica_file of
                Inl e \<Rightarrow> Inl e
              | Inr replica_stat \<Rightarrow>
                  if st_size source_stat \<noteq> st_size replica_stat
                     \<or> st_mtime source_stat \<noteq> st_mtime replica_stat
                  then Inr False
                  else Inr True)))"

text \<open>
  \<^verbatim>\<open>modified_check\<close> of the simple variant returns a second component: 0 when the
  replica path did not exist, 1 when it did.
\<close>

definition modified_check_simple :: "world \<Rightarrow> path \<Rightarrow> path \<Rightarrow> error + (bool \<times> nat)" where
  "modified_check_simple w source_file replica_file =
     (if \<not> os_path_exists (rep w) replica_file then Inr (False, 0)
      else
        (case os_stat (src w) source_file of
           Inl e \<Rightarrow> Inl e
         | Inr source_stat \<Rightarrow>
             (case os_stat (rep w) replica_file of
                Inl e \<Rightarrow> Inl e
              | Inr replica_stat \<Rightarrow>
                  if st_size source_stat \<noteq> st_size replica_stat
                     \<or> st_mtime source_stat \<noteq> st_mtime replica_stat
                  then Inr (False, 1)
                  else Inr (True, 1))))"

text \<open>
  \<^verbatim>\<open>shutil.copy2(src, dst)\<close>: when \<open>dst\<close> is a directory the file is written inside it
  under the base name of \<open>src\<close>; otherwise \<open>dst\<close> itself is written. The bytes are
  copied first and the modification time after them, so a copy that raises half-way
  leaves the bytes written so far, stamped with the time of the write.
\<close>

definition os_path_basename :: "path \<Rightarrow> string" where
  "os_path_basename p = (if p = [] then [] else last p)"

definition next_fault :: "world \<Rightarrow> fault \<times> world" where
  "next_fault w =
     (case faults w of
        [] \<Rightarrow> (NoFault, w)
      | f # fs \<Rightarrow> (f, w\<lparr>faults := fs\<rparr>))"

definition write_replica :: "path \<Rightarrow> node \<Rightarrow> world \<Rightarrow> error option \<times> world" where
  "write_replica dst f w =
     (case write_file (clock w) dst f (rep w) of
        Inl e \<Rightarrow> (Some e, w)
      | Inr r \<Rightarrow> (None, w\<lparr>rep := r\<rparr>))"

definition shutil_copy2 :: "path \<Rightarrow> path \<Rightarrow> world \<Rightarrow> error option \<times> world" where
  "shutil_copy2 original_file replica_file w0 =
     (case next_fault (emit (Copy2 original_file replica_file) w0) of (flt, w) \<Rightarrow>
        (case lookup (src w) original_file of
           None \<Rightarrow> (Some FileNotFoundError, w)
         | Some (Dir s m es) \<Rightarrow> (Some IsADirectoryError, w)
         | Some (File m c) \<Rightarrow>
             (let dst = (case lookup (rep w) replica_file of
                           Some (Dir s' m' es') \<Rightarrow> replica_file @ [os_path_basename original_file]
                         | _ \<Rightarrow> replica_file)
              in case flt of
                   CopyError \<Rightarrow> (Some OSError, w)
                 | PartialWrite bs \<Rightarrow>
                     (case write_replica dst (File (clock w) bs) w of
                        (Some e, w') \<Rightarrow> (Some e, w')
                      | (None, w') \<Rightarrow> (Some OSError, w'))
                 | Corrupt bs \<Rightarrow> write_replica dst (File m bs) w
                 | NoFault \<Rightarrow> write_replica dst (File m c) w)))"

text \<open>
  The body of the \<^verbatim>\<open>try\<close> in \<^verbatim>\<open>copy_validate\<close>: copy, hash the original, hash the
  replica, compare. \<open>Inr True\<close> is the branch that returns the success message,
  \<open>Inr False\<close> the hash mismatch, \<open>Inl e\<close> an exception raised by any of the three calls.
\<close>

definition copy_attempt :: "(bytes \<Rightarrow> digest) \<Rightarrow> path \<Rightarrow> path \<Rightarrow> world \<Rightarrow> (error + bool) \<times> world" where
  "copy_attempt H original_file replica_file w =
     (case shutil_copy2 original_file replica_file w of
        (Some e, w1) \<Rightarrow> (Inl e, w1)
      | (None, w1) \<Rightarrow>
          (case calculate_xxhash H Source original_file w1 of
             (Inl e, w2) \<Rightarrow> (Inl e, w2)
           | (Inr source_hash, w2) \<Rightarrow>
               (case calculate_xxhash H Replica replica_file w2 of
                  (Inl e, w3) \<Rightarrow> (Inl e, w3)
                | (Inr replica_hash, w3) \<Rightarrow> (Inr (source_hash = replica_hash), w3))))"

definition max_retries :: nat where
  "max_retries = 3"

text \<open>
  The \<^verbatim>\<open>while retry_count <= max_retries\<close> loop of \<^verbatim>\<open>copy_validate\<close>. The two variants
  differ in the message returned on success only, which is the parameter \<open>ok\<close>.
\<close>

function copy_validate_loop ::
  "(bytes \<Rightarrow> digest) \<Rightarrow> message \<Rightarrow> path \<Rightarrow> path \<Rightarrow> nat \<Rightarrow> world \<Rightarrow> message \<times> world" where
  "copy_validate_loop H ok original_file replica_file retry_count w =
     (if retry_count \<le> max_retries then
        (case copy_attempt H original_file replica_file w of
           (Inr True, w') \<Rightarrow> (ok, w')
         | (Inr False, w') \<Rightarrow>
             copy_validate_loop H ok original_file replica_file (retry_count + 1)
               (emit (LogError (HashMismatch original_file replica_file)) w')
         | (Inl e, w') \<Rightarrow>
             copy_validate_loop H ok original_file replica_file (retry_count + 1)
               (emit (LogError (ErrorCopying original_file replica_file e)) w'))
      else (Failed original_file max_retries, w))"
  by pat_completeness auto
termination
  by (relation "measure (\<lambda>(H, ok, a, b, retry_count, w). Suc max_retries - retry_count)") auto

declare copy_validate_loop.simps [simp del]

definition copy_validate :: "(bytes \<Rightarrow> digest) \<Rightarrow> path \<Rightarrow> path \<Rightarrow> world \<Rightarrow> message \<times> world" where
  "copy_validate H original_file replica_file w =
     copy_validate_loop H (Copied original_file replica_file) original_file replica_file 0 w"

definition copy_validate_simple ::
  "(bytes \<Rightarrow> digest) \<Rightarrow> path \<Rightarrow> path \<Rightarrow> nat \<Rightarrow> world \<Rightarrow> message \<times> world" where
  "copy_validate_simple H original_file replica_file check w =
     copy_validate_loop H
       (if check \<noteq> 0 then Updated replica_file else Copied replica_file replica_file)
       original_file replica_file 0 w"

text \<open>
  \<^verbatim>\<open>sync_directory\<close> of the extended variant. \<open>sync_file\<close> is the body of the loop over
  the files of one directory, \<open>sync_visits\<close> the loop over what \<^verbatim>\<open>os.walk\<close> reports.
  The source tree does not change while it is walked, so the walk is taken at the start.
  An exception leaves the loop with the state reached so far.
\<close>

type_synonym task = "path \<times> path"

definition makedirs_replica :: "path \<Rightarrow> world \<Rightarrow> error option \<times> world" where
  "makedirs_replica p w =
     (case os_makedirs (clock w) p (rep w) of
        Inl e \<Rightarrow> (Some e, emit (Makedirs p) w)
      | Inr r \<Rightarrow> (None, (emit (Makedirs p) w)\<lparr>rep := r\<rparr>))"

definition sync_file ::
  "(bytes \<Rightarrow> digest) \<Rightarrow> bool \<Rightarrow> path \<Rightarrow> path \<Rightarrow> string \<Rightarrow> task list \<Rightarrow> world \<Rightarrow> (error + task list) \<times> world" where
  "sync_file H strict root replica_root file file_tasks w =
     (let source_file = root @ [file]; replica_file = replica_root @ [file] in
      if strict then
        (case modified_check w source_file replica_file of
           Inl e \<Rightarrow> (Inl e, w)
         | Inr unchanged \<Rightarrow>
             if \<not> unchanged then (Inr (file_tasks @ [(source_file, replica_file)]), w)
             else
               (case calculate_xxhash H Source source_file w of
                  (Inl e, w1) \<Rightarrow> (Inl e, w1)
                | (Inr source_hash, w1) \<Rightarrow>
                    (case calculate_xxhash H Replica replica_file w1 of
                       (Inl e, w2) \<Rightarrow> (Inl e, w2)
                     | (Inr replica_hash, w2) \<Rightarrow>
                         if source_hash \<noteq> replica_hash
                         then (Inr (file_tasks @ [(source_file, replica_file)]), w2)
                         else (Inr file_tasks, w2))))
      else
        (case modified_check w source_file replica_file of
           Inl e \<Rightarrow> (Inl e, w)
         | Inr unchanged \<Rightarrow>
             if \<not> unchanged then (Inr (file_tasks @ [(source_file, replica_file)]), w)
             else (Inr file_tasks, w)))"

fun sync_files ::
  "(bytes \<Rightarrow> digest) \<Rightarrow> bool \<Rightarrow> path \<Rightarrow> path \<Rightarrow> string list \<Rightarrow> task list \<Rightarrow> world \<Rightarrow> (error + task list) \<times> world" where
  "sync_files H strict root replica_root [] file_tasks w = (Inr file_tasks, w)"
| "sync_files H strict root replica_root (file # files) file_tasks w =
     (case sync_file H strict root replica_root file file_tasks w of
        (Inl e, w') \<Rightarrow> (Inl e, w')
      | (Inr file_tasks', w') \<Rightarrow> sync_files H strict root replica_root files file_tasks' w')"

fun sync_visits ::
  "(bytes \<Rightarrow> digest) \<Rightarrow> bool \<Rightarrow> (path \<times> string list \<times> string list) list \<Rightarrow> task list \<Rightarrow> world
     \<Rightarrow> (error + task list) \<times> world" where
  "sync_visits H strict [] file_tasks w = (Inr file_tasks, w)"
| "sync_visits H strict ((root, dirs, files) # visits) file_tasks w =
     (let replica_root = root in
      case (if \<not> os_path_exists (rep w) replica_root then makedirs_replica replica_root w
            else (None, w)) of
        (Some e, w1) \<Rightarrow> (Inl e, w1)
      | (None, w1) \<Rightarrow>
          (case sync_files H strict root replica_root files file_tasks w1 of
             (Inl e, w2) \<Rightarrow> (Inl e, w2)
           | (Inr file_tasks', w2) \<Rightarrow> sync_visits H strict visits file_tasks' w2))"

definition sync_directory :: "(bytes \<Rightarrow> digest) \<Rightarrow> bool \<Rightarrow> world \<Rightarrow> (error + task list) \<times> world" where
  "sync_directory H strict w = sync_visits H strict (os_walk [] (src w)) [] w"

text \<open>
  \<^verbatim>\<open>sync_directory\<close> of the simple variant: the same traversal, but a file found to
  need a copy is copied on the spot, inside the loop, and the result is logged.
\<close>

definition copy_and_log :: "(bytes \<Rightarrow> digest) \<Rightarrow> path \<Rightarrow> path \<Rightarrow> nat \<Rightarrow> world \<Rightarrow> world" where
  "copy_and_log H source_file replica_file check w =
     (case copy_validate_simple H source_file replica_file check w of
        (result, w') \<Rightarrow> emit (LogInfo result) w')"

definition sync_file_simple ::
  "(bytes \<Rightarrow> digest) \<Rightarrow> bool \<Rightarrow> path \<Rightarrow> path \<Rightarrow> string \<Rightarrow> world \<Rightarrow> error option \<times> world" where
  "sync_file_simple H strict root replica_root file w =
     (let source_file = root @ [file]; replica_file = replica_root @ [file] in
      case modified_check_simple w source_file replica_file of
        Inl e \<Rightarrow> (Some e, w)
      | Inr check \<Rightarrow>
          if strict then
            if \<not> fst check then (None, copy_and_log H source_file replica_file (snd check) w)
            else
              (case calculate_xxhash H Source source_file w of
                 (Inl e, w1) \<Rightarrow> (Some e, w1)
               | (Inr source_hash, w1) \<Rightarrow>
                   (case calculate_xxhash H Replica replica_file w1 of
                      (Inl e, w2) \<Rightarrow> (Some e, w2)
                    | (Inr replica_hash, w2) \<Rightarrow>
                        if source_hash \<noteq> replica_hash
                        then (None, copy_and_log H source_file replica_file (snd check) w2)
                        else (None, w2)))
          else if \<not> fst check then (None, copy_and_log H source_file replica_file (snd check) w)
          else (None, w))"

fun sync_files_simple ::
  "(bytes \<Rightarrow> digest) \<Rightarrow> bool \<Rightarrow> path \<Rightarrow> path \<Rightarrow> string list \<Rightarrow> world \<Rightarrow> error option \<times> world" where
  "sync_files_simple H strict root replica_root [] w = (None, w)"
| "sync_files_simple H strict root replica_root (file # files) w =
     (case sync_file_simple H strict root replica_root file w of
        (Some e, w') \<Rightarrow> (Some e, w')
      | (None, w') \<Rightarrow> sync_files_simple H strict root replica_root files w')"

fun sync_visits_simple ::
  "(bytes \<Rightarrow> digest) \<Rightarrow> bool \<Rightarrow> (path \<times> string list \<times> string list) list \<Rightarrow> world \<Rightarrow> error option \<times> world" where
  "sync_visits_simple H strict [] w = (None, w)"
| "sync_visits_simple H strict ((root, dirs, files) # visits) w =
     (let replica_root = root in
      case (if \<not> os_path_exists (rep w) replica_root then makedirs_replica replica_root w
            else (None, w)) of
        (Some e, w1) \<Rightarrow> (Some e, w1)
      | (None, w1) \<Rightarrow>
          (case sync_files_simple H strict root replica_root files w1 of
             (Some e, w2) \<Rightarrow> (Some e, w2)
           | (None, w2) \<Rightarrow> sync_visits_simple H strict visits w2))"

definition sync_directory_simple :: "(bytes \<Rightarrow> digest) \<Rightarrow> bool \<Rightarrow> world \<Rightarrow> error option \<times> world" where
  "sync_directory_simple H strict w = sync_visits_simple H strict (os_walk [] (src w)) w"

text \<open>
  \<^verbatim>\<open>cleanup_replica\<close> walks the replica with \<^verbatim>\<open>topdown=False\<close>: \<^verbatim>\<open>os.walk\<close> lists a
  directory, walks each of its subdirectories, and only then reports the directory with
  the names it listed. The body of the loop removes entries of the reported directory
  only, so the walk and the body are one recursion over the replica tree:
  \<open>cleanup_walk_entries\<close> is the walk of the subdirectories, \<open>cleanup_files\<close> and
  \<open>cleanup_dirs\<close> are the two inner loops. Removing an entry sets the modification time
  of the directory it is removed from. Both variants have the same text.
\<close>

fun delete_entry :: "int \<Rightarrow> string \<Rightarrow> node \<Rightarrow> node" where
  "delete_entry now x (Dir s m es) = Dir s now (AList.delete x es)"
| "delete_entry now x (File m c) = File m c"

fun cleanup_files :: "node \<Rightarrow> int \<Rightarrow> path \<Rightarrow> string list \<Rightarrow> node \<Rightarrow> node \<times> event list" where
  "cleanup_files S now root [] d = (d, [])"
| "cleanup_files S now root (file # files) d =
     (let source_file = root @ [file]; replica_file = root @ [file] in
      if \<not> os_path_exists S source_file then
        (case cleanup_files S now root files (delete_entry now file d) of
           (d', evs) \<Rightarrow> (d', Remove replica_file # LogInfo (FileRemoved replica_file) # evs))
      else cleanup_files S now root files d)"

fun cleanup_dirs :: "node \<Rightarrow> int \<Rightarrow> path \<Rightarrow> string list \<Rightarrow> node \<Rightarrow> node \<times> event list" where
  "cleanup_dirs S now root [] d = (d, [])"
| "cleanup_dirs S now root (currdir # dirs) d =
     (let source_dir_path = root @ [currdir]; replica_dir_path = root @ [currdir] in
      if \<not> os_path_exists S source_dir_path then
        (case cleanup_dirs S now root dirs (delete_entry now currdir d) of
           (d', evs) \<Rightarrow> (d', Rmtree replica_dir_path # LogInfo (DirectoryRemoved replica_dir_path) # evs))
      else cleanup_dirs S now root dirs d)"

fun cleanup_walk :: "node \<Rightarrow> int \<Rightarrow> path \<Rightarrow> node \<Rightarrow> node \<times> event list"
  and cleanup_walk_entries :: "node \<Rightarrow> int \<Rightarrow> path \<Rightarrow> (string \<times> node) list \<Rightarrow> (string \<times> node) list \<times> event list"
where
  "cleanup_walk S now root (File m c) = (File m c, [])"
| "cleanup_walk S now root (Dir s m es) =
     (case cleanup_walk_entries S now root es of (es1, evs1) \<Rightarrow>
      case cleanup_files S now root (file_names es) (Dir s m es1) of (d2, evs2) \<Rightarrow>
      case cleanup_dirs S now root (dir_names es) d2 of (d3, evs3) \<Rightarrow>
        (d3, evs1 @ evs2 @ evs3))"
| "cleanup_walk_entries S now root [] = ([], [])"
| "cleanup_walk_entries S now root (e # es) =
     (case cleanup_walk S now (root @ [fst e]) (snd e) of (c', evs1) \<Rightarrow>
      case cleanup_walk_entries S now root es of (es', evs2) \<Rightarrow>
        ((fst e, c') # es', evs1 @ evs2))"

definition cleanup_replica :: "world \<Rightarrow> world" where
  "cleanup_replica w =
     (case cleanup_walk (src w) (clock w) [] (rep w) of
        (r, evs) \<Rightarrow> w\<lparr>rep := r, trace := trace w @ evs\<rparr>)"

text \<open>
  \<^verbatim>\<open>synchronization\<close>. The tasks are run one after the other in the order of the list,
  as the branch without multiprocessing does; the branch with the process pool logs the
  results in the same order. The result is the exception that ended the pass, if any.
\<close>

fun run_tasks :: "(bytes \<Rightarrow> digest) \<Rightarrow> task list \<Rightarrow> world \<Rightarrow> world" where
  "run_tasks H [] w = w"
| "run_tasks H ((source_file, replica_file) # tasks) w =
     (case copy_validate H source_file replica_file w of
        (result, w') \<Rightarrow> run_tasks H tasks (emit (LogInfo result) w'))"

definition synchronization :: "(bytes \<Rightarrow> digest) \<Rightarrow> bool \<Rightarrow> world \<Rightarrow> error option \<times> world" where
  "synchronization H strict w =
     (case sync_directory H strict w of
        (Inl e, w1) \<Rightarrow> (Some e, w1)
      | (Inr file_tasks, w1) \<Rightarrow> (None, cleanup_replica (run_tasks H file_tasks w1)))"

definition synchronization_simple :: "(bytes \<Rightarrow> digest) \<Rightarrow> bool \<Rightarrow> world \<Rightarrow> error option \<times> world" where
  "synchronization_simple H strict w =
     (case sync_directory_simple H strict w of
        (Some e, w1) \<Rightarrow> (Some e, w1)
      | (None, w1) \<Rightarrow> (None, cleanup_replica w1))"

text \<open>
  \<^verbatim>\<open>unit_conv\<close>. Only the first test can succeed for a unit that is a string: the others
  compare the string with a pair. \<open>None\<close> is \<^verbatim>\<open>sys.exit(0)\<close>.
\<close>

definition unit_conv :: "string \<Rightarrow> string option" where
  "unit_conv unit = (if unit = ''minutes'' \<or> unit = ''m'' then Some ''MINUTE'' else None)"

text \<open>
  \<^verbatim>\<open>run\<close> of the extended variant, as the list of what it does with the number of
  processes: each call of \<^verbatim>\<open>synchronization\<close> with the \<^verbatim>\<open>max_workers\<close> it hands to the
  process pool, the scheduling of the task, and the exit. \<^verbatim>\<open>schedule_task\<close> converts the unit
  before it runs \<^verbatim>\<open>schtasks\<close>, and each round of the periodic loop converts it after its
  synchronisation, so a unit that \<^verbatim>\<open>unit_conv\<close> refuses ends the run there. With a unit it
  accepts the periodic loop never ends; \<open>n\<close> bounds the number of its rounds that are
  listed. \<open>cpu_count\<close> is what \<^verbatim>\<open>multiprocessing.cpu_count()\<close> returns.
\<close>

datatype run_action =
    Synchronization bool int
  | ScheduleTask int
  | SysExit

fun run_loop :: "nat \<Rightarrow> string \<Rightarrow> bool \<Rightarrow> int \<Rightarrow> run_action list" where
  "run_loop 0 unit multi procnum = []"
| "run_loop (Suc n) unit multi procnum =
     Synchronization multi procnum #
     (case unit_conv unit of
        None \<Rightarrow> [SysExit]
      | Some u \<Rightarrow> run_loop n unit multi procnum)"

definition run :: "nat \<Rightarrow> int \<Rightarrow> string \<Rightarrow> bool \<Rightarrow> int \<Rightarrow> bool \<Rightarrow> string \<Rightarrow> run_action list" where
  "run n cpu_count unit multi procnum sched now =
     (let first = (if now = ''1'' then [Synchronization multi procnum] else []) in
      if now = ''2'' then first @ [Synchronization multi procnum, SysExit]
      else
        (let procnum' = min procnum cpu_count in
         if sched then
           (case unit_conv unit of
              None \<Rightarrow> first @ [SysExit]
            | Some u \<Rightarrow> first @ [ScheduleTask procnum', SysExit])
         else first @ run_loop n unit multi procnum'))"

section \<open>Notions used in the statements\<close>

text \<open>
  The events a call adds to the trace, the number of calls of \<^verbatim>\<open>shutil.copy2\<close> among
  them (one per try of \<^verbatim>\<open>copy_validate\<close>) and the number of error messages (one per
  failed try).
\<close>

fun is_Copy2 :: "event \<Rightarrow> bool" where
  "is_Copy2 (Copy2 a b) = True"
| "is_Copy2 e = False"

fun is_LogError :: "event \<Rightarrow> bool" where
  "is_LogError (LogError m) = True"
| "is_LogError e = False"

definition new_events :: "world \<Rightarrow> world \<Rightarrow> event list" where
  "new_events w w' = drop (length (trace w)) (trace w')"

definition attempts_in :: "event list \<Rightarrow> nat" where
  "attempts_in evs = length (filter is_Copy2 evs)"

definition failures_in :: "event list \<Rightarrow> nat" where
  "failures_in evs = length (filter is_LogError evs)"



text \<open>
  Kinds of events: what planning may do (create directories, read files for hashing),
  what the copy phase does, what the clean-up does, and deletions. \<open>extends_by P\<close> says
  that a step leaves the source tree and the clock alone and adds only events of kind
  \<open>P\<close> to the trace. \<open>dirs_only_added t t'\<close> says that \<open>t'\<close> has exactly the regular
  files of \<open>t\<close>, unchanged, and still has every path of \<open>t\<close>. \<open>stale\<close> selects the names
  of a replica directory with nothing at the same path of the source.
\<close>

fun is_Makedirs :: "event \<Rightarrow> bool" where
  "is_Makedirs (Makedirs p) = True"
| "is_Makedirs e = False"

fun is_planning_event :: "event \<Rightarrow> bool" where
  "is_planning_event (Makedirs p) = True"
| "is_planning_event (Xxhash sd p) = True"
| "is_planning_event e = False"

fun is_deletion :: "event \<Rightarrow> bool" where
  "is_deletion (Remove p) = True"
| "is_deletion (Rmtree p) = True"
| "is_deletion e = False"

fun is_copy_event :: "event \<Rightarrow> bool" where
  "is_copy_event (Copy2 a b) = True"
| "is_copy_event (Xxhash sd p) = True"
| "is_copy_event (LogInfo m) = True"
| "is_copy_event (LogError m) = True"
| "is_copy_event e = False"

fun is_cleanup_event :: "event \<Rightarrow> bool" where
  "is_cleanup_event (Remove p) = True"
| "is_cleanup_event (Rmtree p) = True"
| "is_cleanup_event (LogInfo m) = True"
| "is_cleanup_event e = False"

definition stale :: "node \<Rightarrow> path \<Rightarrow> string list \<Rightarrow> string list" where
  "stale S root names = filter (\<lambda>x. \<not> os_path_exists S (root @ [x])) names"

definition extends_by :: "(event \<Rightarrow> bool) \<Rightarrow> world \<Rightarrow> world \<Rightarrow> bool" where
  "extends_by P w w' =
     (src w' = src w \<and> clock w' = clock w
      \<and> (\<exists>evs. trace w' = trace w @ evs \<and> (\<forall>e\<in>set evs. P e)))"

definition dirs_only_added :: "node \<Rightarrow> node \<Rightarrow> bool" where
  "dirs_only_added t t' =
     ((\<forall>q m c. lookup t' q = Some (File m c) \<longleftrightarrow> lookup t q = Some (File m c))
      \<and> (\<forall>q. os_path_exists t q \<longrightarrow> os_path_exists t' q))"

text \<open>
  A tree is well formed when no directory lists a name twice. The target of an event of
  the clean-up is the path it removes or reports removed; \<open>removal_events\<close> are the
  events of one removal (the call and the log message). \<open>below q p\<close>: the path \<open>p\<close>
  lies strictly inside the directory \<open>q\<close>. \<open>bottom_up\<close>: once a directory has been
  removed, no later event has its target inside it. \<open>targets_under\<close>: every event has
  its target strictly below \<open>root\<close>, at a path with nothing in the source.
\<close>

fun wf_node :: "node \<Rightarrow> bool" and wf_entries :: "(string \<times> node) list \<Rightarrow> bool" where
  "wf_node (File m c) = True"
| "wf_node (Dir s m es) = (distinct (map fst es) \<and> wf_entries es)"
| "wf_entries [] = True"
| "wf_entries (e # es) = (wf_node (snd e) \<and> wf_entries es)"

fun target :: "event \<Rightarrow> path option" where
  "target (Remove p) = Some p"
| "target (Rmtree p) = Some p"
| "target (LogInfo (FileRemoved p)) = Some p"
| "target (LogInfo (DirectoryRemoved p)) = Some p"
| "target e = None"

definition removal_events :: "path \<Rightarrow> bool \<Rightarrow> event list" where
  "removal_events p isdir =
     (if isdir then [Rmtree p, LogInfo (DirectoryRemoved p)]
      else [Remove p, LogInfo (FileRemoved p)])"

definition below :: "path \<Rightarrow> path \<Rightarrow> bool" where
  "below q p = (length q < length p \<and> take (length q) p = q)"

fun bottom_up :: "event list \<Rightarrow> bool" where
  "bottom_up [] = True"
| "bottom_up (e # es) =
     ((case e of
         Rmtree q \<Rightarrow> list_all (\<lambda>e'. case target e' of Some p \<Rightarrow> \<not> below q p | None \<Rightarrow> True) es
       | _ \<Rightarrow> True)
      \<and> bottom_up es)"

definition targets_under :: "node \<Rightarrow> path \<Rightarrow> event list \<Rightarrow> bool" where
  "targets_under S root evs =
     (\<forall>e\<in>set evs. \<exists>z. z \<noteq> [] \<and> target e = Some (root @ z) \<and> \<not> os_path_exists S (root @ z))"

text \<open>
  Notions for two passes in a row: whether a tree has a directory at a path; the paths of
  the files that the walk of a tree visits; a replica entry that makes \<^verbatim>\<open>modified_check\<close>,
  and in strict mode the comparison of the digests, report a source file unchanged; two
  trees that agree on every path outside a set; a fault that makes the copy step write,
  without raising, bytes that differ from those of a source file and have their digest,
  so that the comparison of the digests after the copy cannot tell; the message of a task
  that failed; the event of a digest computation.
\<close>

definition dir_at :: "node \<Rightarrow> path \<Rightarrow> bool" where
  "dir_at t q = (case lookup t q of Some n \<Rightarrow> is_dir n | None \<Rightarrow> False)"

definition visit_files :: "(path \<times> string list \<times> string list) list \<Rightarrow> path list" where
  "visit_files visits = concat (map (\<lambda>(root, dirs, files). map (\<lambda>f. root @ [f]) files) visits)"

definition walk_files :: "node \<Rightarrow> path list" where
  "walk_files S = visit_files (os_walk [] S)"

definition up_to_date :: "(bytes \<Rightarrow> digest) \<Rightarrow> bool \<Rightarrow> node \<Rightarrow> node \<Rightarrow> path \<Rightarrow> bool" where
  "up_to_date H strict S R p =
     (case lookup S p of
        Some (File m c) \<Rightarrow>
          (case lookup R p of
             Some (File m' c') \<Rightarrow> m' = m \<and> length c' = length c \<and> (\<not> strict \<or> H c' = H c)
           | _ \<Rightarrow> False)
      | _ \<Rightarrow> False)"

definition same_outside :: "path set \<Rightarrow> node \<Rightarrow> node \<Rightarrow> bool" where
  "same_outside P R R' =
     (\<forall>q. q \<notin> P \<longrightarrow>
        (\<forall>m c. lookup R' q = Some (File m c) \<longleftrightarrow> lookup R q = Some (File m c))
        \<and> dir_at R' q = dir_at R q)"

fun collides :: "(bytes \<Rightarrow> digest) \<Rightarrow> bytes \<Rightarrow> fault \<Rightarrow> bool" where
  "collides H c (Corrupt bs) = (H bs = H c \<and> bs \<noteq> c)"
| "collides H c f = False"

definition undetected :: "(bytes \<Rightarrow> digest) \<Rightarrow> node \<Rightarrow> fault \<Rightarrow> bool" where
  "undetected H S f =
     list_ex (\<lambda>p. case lookup S p of Some (File m c) \<Rightarrow> collides H c f | _ \<Rightarrow> False)
       (walk_files S)"

fun is_failure :: "event \<Rightarrow> bool" where
  "is_failure (LogInfo (Failed p n)) = True"
| "is_failure e = False"

fun is_Xxhash :: "event \<Rightarrow> bool" where
  "is_Xxhash (Xxhash sd p) = True"
| "is_Xxhash e = False"

text \<open>A stand-in for the hash function and small worlds, for the concrete instances.\<close>

definition sample_hash :: "bytes \<Rightarrow> digest" where
  "sample_hash bs = foldl (\<lambda>h b. h * 31 + ucast b) 7 bs"

definition world_new_file :: world where
  "world_new_file =
     \<lparr>src = Dir 4096 0 [(''docs'', Dir 4096 0 [(''readme.txt'', File 5 [1, 2, 3])]), (''a.txt'', File 6 [4])],
      rep = Dir 4096 0 [(''stale.txt'', File 1 [1, 2])],
      clock = 9, faults = [], trace = []\<rparr>"

definition world_retry :: world where
  "world_retry = world_new_file\<lparr>faults := [CopyError, Corrupt [9]]\<rparr>"

definition world_always_failing :: world where
  "world_always_failing = world_new_file\<lparr>faults := [CopyError, Corrupt [9], PartialWrite [4], CopyError]\<rparr>"

text \<open>
  A source file \<^verbatim>\<open>p\<close> of three bytes whose replica path is a directory that reports
  the same size and modification time, with a file \<^verbatim>\<open>x\<close> in it.
\<close>

definition world_dir_for_file :: world where
  "world_dir_for_file =
     \<lparr>src = Dir 4096 0 [(''p'', File 5 [1, 2, 3])],
      rep = Dir 4096 0 [(''p'', Dir 3 5 [(''x'', File 1 [])])],
      clock = 9, faults = [], trace = []\<rparr>"

text \<open>
  Both files exist in the replica: \<^verbatim>\<open>a.txt\<close> with the size and time of the source but
  other bytes, \<^verbatim>\<open>b.txt\<close> with the bytes of the source but an older time.
\<close>

definition world_touched :: world where
  "world_touched =
     \<lparr>src = Dir 4096 0 [(''a.txt'', File 6 [4]), (''b.txt'', File 7 [1, 2])],
      rep = Dir 4096 0 [(''a.txt'', File 6 [5]), (''b.txt'', File 3 [1, 2])],
      clock = 9, faults = [], trace = []\<rparr>"

text \<open>
  A replica with the stale subtree \<^verbatim>\<open>A/B/c.txt\<close>, with a file \<^verbatim>\<open>keep\<close> where the source
  has a directory, and with a directory \<^verbatim>\<open>kind\<close> where the source has a file.
\<close>

definition world_stale_tree :: world where
  "world_stale_tree =
     \<lparr>src = Dir 4096 0 [(''keep'', Dir 4096 0 []), (''kind'', File 2 [7])],
      rep = Dir 4096 0
        [(''A'', Dir 4096 0 [(''B'', Dir 4096 0 [(''c.txt'', File 1 [1, 2])])]),
         (''keep'', File 3 [8]),
         (''kind'', Dir 4096 4 [])],
      clock = 9, faults = [], trace = []\<rparr>"

section \<open>Properties\<close>

subsection \<open>The trace and the other fields\<close>

lemma emit_fields [simp]:
  "src (emit e w) = src w" "rep (emit e w) = rep w" "clock (emit e w) = clock w"
  "faults (emit e w) = faults w" "trace (emit e w) = trace w @ [e]"
  by (simp_all add: emit_def)

lemma calculate_xxhash_fields:
  "calculate_xxhash H sd p w = (r, w') \<Longrightarrow>
     src w' = src w \<and> rep w' = rep w \<and> clock w' = clock w \<and> faults w' = faults w
     \<and> trace w' = trace w @ [Xxhash sd p]"
  by (auto simp: calculate_xxhash_def split: option.splits node.splits)

lemma write_replica_fields:
  "write_replica dst f w = (r, w') \<Longrightarrow>
     src w' = src w \<and> clock w' = clock w \<and> faults w' = faults w \<and> trace w' = trace w"
  by (auto simp: write_replica_def split: sum.splits)

lemma next_fault_fields:
  "next_fault w = (f, w') \<Longrightarrow>
     src w' = src w \<and> rep w' = rep w \<and> clock w' = clock w \<and> trace w' = trace w"
  by (auto simp: next_fault_def split: list.splits)

lemma shutil_copy2_fields:
  assumes "shutil_copy2 sp rp w = (r, w')"
  shows "src w' = src w \<and> clock w' = clock w \<and> trace w' = trace w @ [Copy2 sp rp]"
proof -
  obtain flt v where nf: "next_fault (emit (Copy2 sp rp) w) = (flt, v)"
    by (cases "next_fault (emit (Copy2 sp rp) w)")
  have v: "src v = src w" "clock v = clock w" "trace v = trace w @ [Copy2 sp rp]"
    using next_fault_fields [OF nf] by simp_all
  have "src w' = src v \<and> clock w' = clock v \<and> trace w' = trace v"
    using assms nf
    by (auto simp: shutil_copy2_def Let_def
        split: option.splits node.splits fault.splits prod.splits
        dest: write_replica_fields)
  with v show ?thesis by simp
qed

lemma copy_attempt_fields:
  assumes "copy_attempt H sp rp w = (r, w')"
  shows "src w' = src w \<and> clock w' = clock w \<and>
    (\<exists>evs. trace w' = trace w @ Copy2 sp rp # evs \<and> attempts_in evs = 0 \<and> failures_in evs = 0)"
  using assms
  by (auto simp: copy_attempt_def attempts_in_def failures_in_def
      split: prod.splits option.splits sum.splits
      dest!: shutil_copy2_fields calculate_xxhash_fields)

lemma copy_validate_loop_count:
  assumes "copy_validate_loop H ok sp rp n w = (res, w')" "n \<le> Suc max_retries"
  shows "\<exists>evs. trace w' = trace w @ evs \<and> attempts_in evs + n \<le> Suc max_retries
           \<and> (res = ok \<and> attempts_in evs = Suc (failures_in evs)
              \<or> res = Failed sp max_retries \<and> attempts_in evs = failures_in evs
                  \<and> attempts_in evs + n = Suc max_retries)"
  using assms
proof (induction H ok sp rp n w rule: copy_validate_loop.induct)
  case (1 H ok sp rp n w)
  show ?case
  proof (cases "n \<le> max_retries")
    case False
    with "1.prems" show ?thesis
      by (simp add: copy_validate_loop.simps [of H ok sp rp n w] attempts_in_def failures_in_def)
  next
    case True
    obtain r w1 where a: "copy_attempt H sp rp w = (r, w1)"
      by (cases "copy_attempt H sp rp w")
    from copy_attempt_fields [OF a] obtain evs1 where
      e1: "trace w1 = trace w @ Copy2 sp rp # evs1" "attempts_in evs1 = 0" "failures_in evs1 = 0"
      by blast
    show ?thesis
    proof (cases r)
      case (Inr b)
      show ?thesis
      proof (cases b)
        case True
        with Inr a \<open>n \<le> max_retries\<close> "1.prems" e1 show ?thesis
          by (simp add: copy_validate_loop.simps [of H ok sp rp n w] attempts_in_def failures_in_def)
      next
        case False
        let ?v = "emit (LogError (HashMismatch sp rp)) w1"
        have loop: "copy_validate_loop H ok sp rp (n + 1) ?v = (res, w')"
          using False Inr a \<open>n \<le> max_retries\<close> "1.prems"
          by (simp add: copy_validate_loop.simps [of H ok sp rp n w])
        from "1.IH"(2) [OF \<open>n \<le> max_retries\<close> a [symmetric] Inr _ loop] False \<open>n \<le> max_retries\<close>
        obtain evs where ev: "trace w' = trace ?v @ evs" "attempts_in evs + (n + 1) \<le> Suc max_retries"
          "res = ok \<and> attempts_in evs = Suc (failures_in evs)
              \<or> res = Failed sp max_retries \<and> attempts_in evs = failures_in evs
                  \<and> attempts_in evs + (n + 1) = Suc max_retries"
          by auto
        show ?thesis
          apply (rule exI [of _ "Copy2 sp rp # evs1 @ [LogError (HashMismatch sp rp)] @ evs"])
          using ev e1 by (auto simp: attempts_in_def failures_in_def)
      qed
    next
      case (Inl e)
      let ?v = "emit (LogError (ErrorCopying sp rp e)) w1"
      have loop: "copy_validate_loop H ok sp rp (n + 1) ?v = (res, w')"
        using Inl a \<open>n \<le> max_retries\<close> "1.prems"
        by (simp add: copy_validate_loop.simps [of H ok sp rp n w])
      from "1.IH"(1) [OF \<open>n \<le> max_retries\<close> a [symmetric] Inl loop] \<open>n \<le> max_retries\<close>
      obtain evs where ev: "trace w' = trace ?v @ evs" "attempts_in evs + (n + 1) \<le> Suc max_retries"
        "res = ok \<and> attempts_in evs = Suc (failures_in evs)
              \<or> res = Failed sp max_retries \<and> attempts_in evs = failures_in evs
                  \<and> attempts_in evs + (n + 1) = Suc max_retries"
        by auto
      show ?thesis
        apply (rule exI [of _ "Copy2 sp rp # evs1 @ [LogError (ErrorCopying sp rp e)] @ evs"])
        using ev e1 by (auto simp: attempts_in_def failures_in_def)
    qed
  qed
qed








subsection \<open>The retry loop\<close>

lemma new_events_append: "trace w' = trace w @ evs \<Longrightarrow> new_events w w' = evs"
  by (simp add: new_events_def)

lemma loop_events:
  assumes "copy_validate_loop H ok sp rp 0 w = (res, w')"
  shows "attempts_in (new_events w w') \<le> Suc max_retries
    \<and> (res = ok \<and> attempts_in (new_events w w') = Suc (failures_in (new_events w w'))
        \<or> res = Failed sp max_retries
           \<and> attempts_in (new_events w w') = failures_in (new_events w w')
           \<and> attempts_in (new_events w w') = Suc max_retries)"
proof -
  from copy_validate_loop_count [OF assms] obtain evs where
    "trace w' = trace w @ evs" "attempts_in evs + 0 \<le> Suc max_retries"
    "res = ok \<and> attempts_in evs = Suc (failures_in evs)
       \<or> res = Failed sp max_retries \<and> attempts_in evs = failures_in evs
           \<and> attempts_in evs + 0 = Suc max_retries"
    by auto
  then show ?thesis by (auto simp: new_events_append)
qed

text \<open>
  Claim C2. \<^verbatim>\<open>copy_validate\<close> (in both variants) never makes more than 4 calls of
  \<^verbatim>\<open>shutil.copy2\<close>; when every try fails, that is when each try is followed by its error
  message, it makes exactly 4 and returns the message of failure.
\<close>

theorem retry_bound:
  "attempts_in (new_events w (snd (copy_validate H sp rp w))) \<le> 4
   \<and> (failures_in (new_events w (snd (copy_validate H sp rp w)))
        = attempts_in (new_events w (snd (copy_validate H sp rp w)))
      \<longrightarrow> attempts_in (new_events w (snd (copy_validate H sp rp w))) = 4
          \<and> fst (copy_validate H sp rp w) = Failed sp 3)
   \<and> attempts_in (new_events w (snd (copy_validate_simple H sp rp check w))) \<le> 4
   \<and> (failures_in (new_events w (snd (copy_validate_simple H sp rp check w)))
        = attempts_in (new_events w (snd (copy_validate_simple H sp rp check w)))
      \<longrightarrow> attempts_in (new_events w (snd (copy_validate_simple H sp rp check w))) = 4
          \<and> fst (copy_validate_simple H sp rp check w) = Failed sp 3)"
proof -
  have a: "attempts_in (new_events w (snd (copy_validate_loop H ok sp rp 0 w))) \<le> 4
   \<and> (failures_in (new_events w (snd (copy_validate_loop H ok sp rp 0 w)))
        = attempts_in (new_events w (snd (copy_validate_loop H ok sp rp 0 w)))
      \<longrightarrow> attempts_in (new_events w (snd (copy_validate_loop H ok sp rp 0 w))) = 4
          \<and> fst (copy_validate_loop H ok sp rp 0 w) = Failed sp 3)" for ok
  proof -
    obtain res w' where e: "copy_validate_loop H ok sp rp 0 w = (res, w')"
      by (cases "copy_validate_loop H ok sp rp 0 w")
    define a where "a = attempts_in (new_events w w')"
    define f where "f = failures_in (new_events w w')"
    from loop_events [OF e] have "a \<le> 4" "res = ok \<and> a = Suc f \<or> res = Failed sp 3 \<and> a = f \<and> a = 4"
      by (simp_all add: max_retries_def a_def f_def)
    then have "a \<le> 4 \<and> (f = a \<longrightarrow> a = 4 \<and> res = Failed sp 3)"
      by auto
    then show ?thesis by (simp add: e a_def f_def)
  qed
  show ?thesis
    unfolding copy_validate_def copy_validate_simple_def using a by blast
qed

theorem retry_bound_witness:
  "failures_in (new_events world_always_failing
       (snd (copy_validate sample_hash [''a.txt''] [''a.txt''] world_always_failing)))
     = attempts_in (new_events world_always_failing
       (snd (copy_validate sample_hash [''a.txt''] [''a.txt''] world_always_failing)))
   \<and> attempts_in (new_events world_always_failing
       (snd (copy_validate sample_hash [''a.txt''] [''a.txt''] world_always_failing))) = 4
   \<and> fst (copy_validate sample_hash [''a.txt''] [''a.txt''] world_always_failing) = Failed [''a.txt''] 3"
proof -
  have h: "failures_in (new_events world_always_failing
       (snd (copy_validate sample_hash [''a.txt''] [''a.txt''] world_always_failing)))
     = attempts_in (new_events world_always_failing
       (snd (copy_validate sample_hash [''a.txt''] [''a.txt''] world_always_failing)))"
    by code_simp
  show ?thesis
    using h retry_bound [of world_always_failing sample_hash "[''a.txt'']" "[''a.txt'']"]
    by blast
qed




text \<open>
  Claim C10. \<^verbatim>\<open>copy_validate\<close> always returns one of its messages: the message of success
  or the message of failure. An exception raised inside a try (by the copy or by one of
  the two digest computations) does not leave the loop: it is logged and the loop goes on
  with \<^verbatim>\<open>retry_count\<close> incremented by one.
\<close>

theorem copy_validate_total:
  "(fst (copy_validate H sp rp w) = Copied sp rp
      \<or> fst (copy_validate H sp rp w) = Failed sp max_retries)
   \<and> (fst (copy_validate_simple H sp rp check w) = Updated rp
      \<or> fst (copy_validate_simple H sp rp check w) = Copied rp rp
      \<or> fst (copy_validate_simple H sp rp check w) = Failed sp max_retries)
   \<and> (\<forall>e w1 n ok. copy_attempt H sp rp w = (Inl e, w1) \<and> n \<le> max_retries
        \<longrightarrow> copy_validate_loop H ok sp rp n w
            = copy_validate_loop H ok sp rp (n + 1) (emit (LogError (ErrorCopying sp rp e)) w1))"
proof (intro conjI allI impI)
  have r: "fst (copy_validate_loop H ok sp rp 0 w) = ok
      \<or> fst (copy_validate_loop H ok sp rp 0 w) = Failed sp max_retries" for ok
    using loop_events [of H ok sp rp w "fst (copy_validate_loop H ok sp rp 0 w)"
        "snd (copy_validate_loop H ok sp rp 0 w)"]
    by auto
  show "fst (copy_validate H sp rp w) = Copied sp rp
      \<or> fst (copy_validate H sp rp w) = Failed sp max_retries"
    unfolding copy_validate_def by (rule r)
  show "fst (copy_validate_simple H sp rp check w) = Updated rp
      \<or> fst (copy_validate_simple H sp rp check w) = Copied rp rp
      \<or> fst (copy_validate_simple H sp rp check w) = Failed sp max_retries"
    unfolding copy_validate_simple_def
    using r [of "if check \<noteq> 0 then Updated rp else Copied rp rp"] by auto
next
  fix e w1 n ok
  assume "copy_attempt H sp rp w = (Inl e, w1) \<and> n \<le> max_retries"
  then show "copy_validate_loop H ok sp rp n w
            = copy_validate_loop H ok sp rp (n + 1) (emit (LogError (ErrorCopying sp rp e)) w1)"
    by (simp add: copy_validate_loop.simps [of H ok sp rp n w])
qed

theorem copy_validate_total_witness:
  "(copy_attempt sample_hash [''a.txt''] [''a.txt''] world_retry
        = (Inl OSError, world_retry\<lparr>faults := [Corrupt [9]], trace := [Copy2 [''a.txt''] [''a.txt'']]\<rparr>)
      \<and> (0::nat) \<le> max_retries)
   \<and> copy_validate_loop sample_hash (Copied [''a.txt''] [''a.txt'']) [''a.txt''] [''a.txt''] 0 world_retry
     = copy_validate_loop sample_hash (Copied [''a.txt''] [''a.txt'']) [''a.txt''] [''a.txt''] (0 + 1)
         (emit (LogError (ErrorCopying [''a.txt''] [''a.txt''] OSError))
            (world_retry\<lparr>faults := [Corrupt [9]], trace := [Copy2 [''a.txt''] [''a.txt'']]\<rparr>))"
proof -
  have h: "copy_attempt sample_hash [''a.txt''] [''a.txt''] world_retry
        = (Inl OSError, world_retry\<lparr>faults := [Corrupt [9]], trace := [Copy2 [''a.txt''] [''a.txt'']]\<rparr>)"
    by code_simp
  have k: "(0::nat) \<le> max_retries" by simp
  show ?thesis
    using h k copy_validate_total [of sample_hash "[''a.txt'']" "[''a.txt'']" world_retry]
    by blast
qed

subsection \<open>Change detection\<close>

text \<open>
  Claim C4. \<^verbatim>\<open>modified_check\<close> (in both variants) reports that the file has to be copied
  when nothing exists at the replica path; when something exists there, it reports that
  the file has to be copied exactly when the two sizes differ or the two modification
  times differ, compared for equality.
\<close>

theorem modified_check_spec:
  "(lookup (rep w) rp = None
      \<longrightarrow> modified_check w sp rp = Inr False \<and> modified_check_simple w sp rp = Inr (False, 0))
   \<and> (\<forall>ss rs. os_stat (src w) sp = Inr ss \<and> os_stat (rep w) rp = Inr rs
      \<longrightarrow> modified_check w sp rp
            = Inr (\<not> (st_size ss \<noteq> st_size rs \<or> st_mtime ss \<noteq> st_mtime rs))
          \<and> modified_check_simple w sp rp
            = Inr (\<not> (st_size ss \<noteq> st_size rs \<or> st_mtime ss \<noteq> st_mtime rs), 1))"
  by (auto simp: modified_check_def modified_check_simple_def os_path_exists_def os_stat_def
      split: option.splits node.splits)

theorem modified_check_spec_witness:
  "(lookup (rep world_new_file) [''a.txt''] = None
     \<and> modified_check world_new_file [''a.txt''] [''a.txt''] = Inr False
     \<and> modified_check_simple world_new_file [''a.txt''] [''a.txt''] = Inr (False, 0))
   \<and> (os_stat (src world_touched) [''b.txt''] = Inr \<lparr>st_size = 2, st_mtime = 7\<rparr>
     \<and> os_stat (rep world_touched) [''b.txt''] = Inr \<lparr>st_size = 2, st_mtime = 3\<rparr>
     \<and> modified_check world_touched [''b.txt''] [''b.txt'']
         = Inr (\<not> (st_size \<lparr>st_size = 2, st_mtime = 7\<rparr> \<noteq> st_size \<lparr>st_size = 2, st_mtime = 3\<rparr>
                  \<or> st_mtime \<lparr>st_size = 2, st_mtime = 7\<rparr> \<noteq> st_mtime \<lparr>st_size = 2, st_mtime = 3\<rparr>))
     \<and> modified_check_simple world_touched [''b.txt''] [''b.txt'']
         = Inr (\<not> (st_size \<lparr>st_size = 2, st_mtime = 7\<rparr> \<noteq> st_size \<lparr>st_size = 2, st_mtime = 3\<rparr>
                  \<or> st_mtime \<lparr>st_size = 2, st_mtime = 7\<rparr> \<noteq> st_mtime \<lparr>st_size = 2, st_mtime = 3\<rparr>), 1))"
proof -
  have h1: "lookup (rep world_new_file) [''a.txt''] = None"
    by (simp add: world_new_file_def)
  have h2: "os_stat (src world_touched) [''b.txt''] = Inr \<lparr>st_size = 2, st_mtime = 7\<rparr>"
    by (simp add: world_touched_def os_stat_def)
  have h3: "os_stat (rep world_touched) [''b.txt''] = Inr \<lparr>st_size = 2, st_mtime = 3\<rparr>"
    by (simp add: world_touched_def os_stat_def)
  show ?thesis
    using h1 h2 h3
      modified_check_spec [of world_new_file "[''a.txt'']" "[''a.txt'']"]
      modified_check_spec [of world_touched "[''b.txt'']" "[''b.txt'']"]
    by blast
qed

lemma calculate_xxhash_file:
  "lookup (tree sd w) p = Some (File m c) \<Longrightarrow>
     calculate_xxhash H sd p w = (Inr (H c), emit (Xxhash sd p) w)"
  by (simp add: calculate_xxhash_def)

lemma emit_emit_trace:
  "emit e2 (emit e1 w) = w\<lparr>trace := trace w @ [e1, e2]\<rparr>"
  by (simp add: emit_def)

lemma modified_check_simple_eq:
  "os_path_exists (rep w) rp \<Longrightarrow>
   modified_check_simple w sp rp = map_sum id (\<lambda>b. (b, 1)) (modified_check w sp rp)"
  by (auto simp: modified_check_def modified_check_simple_def split: sum.splits)

text \<open>
  Claim C3, as amended. In strict mode, for a source file whose replica path exists: when
  \<^verbatim>\<open>modified_check\<close> reports a change, the file is queued (the simple variant copies it)
  and the state is untouched, so no digest has been computed; when it reports no change
  and the replica entry is a regular file, exactly the two digests are computed, of the
  source and then of the replica, and the file is queued (copied) iff they differ.
\<close>

theorem strict_check:
  assumes "lookup (src w) (root @ [file]) = Some (File m c)"
    and "lookup (rep w) (replica_root @ [file]) = Some n"
  shows "(modified_check w (root @ [file]) (replica_root @ [file]) = Inr False
      \<longrightarrow> sync_file H True root replica_root file file_tasks w
            = (Inr (file_tasks @ [(root @ [file], replica_root @ [file])]), w)
          \<and> sync_file_simple H True root replica_root file w
            = (None, copy_and_log H (root @ [file]) (replica_root @ [file]) 1 w))
    \<and> (modified_check w (root @ [file]) (replica_root @ [file]) = Inr True
      \<longrightarrow> (\<forall>m' c'. n = File m' c'
        \<longrightarrow> sync_file H True root replica_root file file_tasks w
            = (Inr (if H c \<noteq> H c' then file_tasks @ [(root @ [file], replica_root @ [file])]
                    else file_tasks),
               w\<lparr>trace := trace w @ [Xxhash Source (root @ [file]), Xxhash Replica (replica_root @ [file])]\<rparr>)
          \<and> sync_file_simple H True root replica_root file w
            = (None,
               if H c \<noteq> H c'
               then copy_and_log H (root @ [file]) (replica_root @ [file]) 1
                      (w\<lparr>trace := trace w @ [Xxhash Source (root @ [file]), Xxhash Replica (replica_root @ [file])]\<rparr>)
               else w\<lparr>trace := trace w @ [Xxhash Source (root @ [file]), Xxhash Replica (replica_root @ [file])]\<rparr>)))"
proof (intro conjI impI allI)
  have ex: "os_path_exists (rep w) (replica_root @ [file])"
    using assms(2) by (simp add: os_path_exists_def)
  note ms = modified_check_simple_eq [OF ex, of "root @ [file]"]
  {
    assume f: "modified_check w (root @ [file]) (replica_root @ [file]) = Inr False"
    show "sync_file H True root replica_root file file_tasks w
            = (Inr (file_tasks @ [(root @ [file], replica_root @ [file])]), w)"
      using f by (simp add: sync_file_def Let_def)
    show "sync_file_simple H True root replica_root file w
            = (None, copy_and_log H (root @ [file]) (replica_root @ [file]) 1 w)"
      using f ms by (simp add: sync_file_simple_def Let_def)
  }
  {
    fix m' c'
    assume t: "modified_check w (root @ [file]) (replica_root @ [file]) = Inr True"
      and n: "n = File m' c'"
    have hs: "calculate_xxhash H Source (root @ [file]) w
        = (Inr (H c), emit (Xxhash Source (root @ [file])) w)"
      using assms(1) by (intro calculate_xxhash_file) (simp add: tree_def)
    have hr: "calculate_xxhash H Replica (replica_root @ [file]) (emit (Xxhash Source (root @ [file])) w)
        = (Inr (H c'), emit (Xxhash Replica (replica_root @ [file])) (emit (Xxhash Source (root @ [file])) w))"
      using assms(2) n by (intro calculate_xxhash_file) (simp add: tree_def)
    show "sync_file H True root replica_root file file_tasks w
            = (Inr (if H c \<noteq> H c' then file_tasks @ [(root @ [file], replica_root @ [file])]
                    else file_tasks),
               w\<lparr>trace := trace w @ [Xxhash Source (root @ [file]), Xxhash Replica (replica_root @ [file])]\<rparr>)"
      using t hs hr by (simp add: sync_file_def Let_def emit_emit_trace)
    show "sync_file_simple H True root replica_root file w
            = (None,
               if H c \<noteq> H c'
               then copy_and_log H (root @ [file]) (replica_root @ [file]) 1
                      (w\<lparr>trace := trace w @ [Xxhash Source (root @ [file]), Xxhash Replica (replica_root @ [file])]\<rparr>)
               else w\<lparr>trace := trace w @ [Xxhash Source (root @ [file]), Xxhash Replica (replica_root @ [file])]\<rparr>)"
      using t ms hs hr by (simp add: sync_file_simple_def Let_def emit_emit_trace)
  }
qed

theorem strict_check_witness:
  "(lookup (src world_touched) ([] @ [''b.txt'']) = Some (File 7 [1, 2])
    \<and> lookup (rep world_touched) ([] @ [''b.txt'']) = Some (File 3 [1, 2])
    \<and> modified_check world_touched ([] @ [''b.txt'']) ([] @ [''b.txt'']) = Inr False
    \<and> sync_file sample_hash True [] [] ''b.txt'' [] world_touched
        = (Inr ([] @ [([] @ [''b.txt''], [] @ [''b.txt''])]), world_touched))
   \<and> (lookup (src world_touched) ([] @ [''a.txt'']) = Some (File 6 [4])
    \<and> lookup (rep world_touched) ([] @ [''a.txt'']) = Some (File 6 [5])
    \<and> modified_check world_touched ([] @ [''a.txt'']) ([] @ [''a.txt'']) = Inr True
    \<and> sync_file sample_hash True [] [] ''a.txt'' [] world_touched
        = (Inr (if sample_hash [4] \<noteq> sample_hash [5] then [] @ [([] @ [''a.txt''], [] @ [''a.txt''])] else []),
           world_touched\<lparr>trace := trace world_touched @ [Xxhash Source ([] @ [''a.txt'']), Xxhash Replica ([] @ [''a.txt''])]\<rparr>))"
proof -
  have b1: "lookup (src world_touched) ([] @ [''b.txt'']) = Some (File 7 [1, 2])"
    by (simp add: world_touched_def)
  have b2: "lookup (rep world_touched) ([] @ [''b.txt'']) = Some (File 3 [1, 2])"
    by (simp add: world_touched_def)
  have b3: "modified_check world_touched ([] @ [''b.txt'']) ([] @ [''b.txt'']) = Inr False"
    by (simp add: world_touched_def modified_check_def os_path_exists_def os_stat_def)
  have a1: "lookup (src world_touched) ([] @ [''a.txt'']) = Some (File 6 [4])"
    by (simp add: world_touched_def)
  have a2: "lookup (rep world_touched) ([] @ [''a.txt'']) = Some (File 6 [5])"
    by (simp add: world_touched_def)
  have a3: "modified_check world_touched ([] @ [''a.txt'']) ([] @ [''a.txt'']) = Inr True"
    by (simp add: world_touched_def modified_check_def os_path_exists_def os_stat_def)
  show ?thesis
    using b1 b2 b3 a1 a2 a3
      strict_check [OF b1 b2, of sample_hash "[]"]
      strict_check [OF a1 a2, of sample_hash "[]"]
    by blast
qed


text \<open>
  The claim as stated fails when the replica entry is a directory that reports the size
  and modification time of the source file: the check reports no change, the digest of
  the replica raises, and the file is neither queued nor left out, since planning ends
  with the exception.
\<close>

theorem strict_check_directory_counterexample:
  "lookup (src world_dir_for_file) [''p''] = Some (File 5 [1, 2, 3])
   \<and> lookup (rep world_dir_for_file) [''p''] = Some (Dir 3 5 [(''x'', File 1 [])])
   \<and> modified_check world_dir_for_file [''p''] [''p''] = Inr True
   \<and> fst (calculate_xxhash sample_hash Replica [''p''] world_dir_for_file) = Inl IsADirectoryError
   \<and> fst (sync_file sample_hash True [] [] ''p'' [] world_dir_for_file) = Inl IsADirectoryError
   \<and> fst (sync_directory sample_hash True world_dir_for_file) = Inl IsADirectoryError"
  by code_simp

subsection \<open>The number of processes\<close>

text \<open>
  Claim C7, evaluated on the code. With \<^verbatim>\<open>now\<close> = "1", the unit "m", 64 processes requested
  and 4 processors, the first pass of \<^verbatim>\<open>run\<close> is handed 64 as \<^verbatim>\<open>max_workers\<close>: \<^verbatim>\<open>procnum\<close>
  is clamped to the number of processors only after that pass.
\<close>

theorem run_unclamped:
  "run 1 4 ''m'' True 64 False ''1'' = [Synchronization True 64, Synchronization True 4]"
  by (simp add: run_def unit_conv_def)


subsection \<open>What planning does to the trees\<close>

lemma dirs_only_added_refl: "dirs_only_added t t"
  by (simp add: dirs_only_added_def)

lemma dirs_only_added_trans:
  "dirs_only_added a b \<Longrightarrow> dirs_only_added b c \<Longrightarrow> dirs_only_added a c"
  by (simp add: dirs_only_added_def)

lemma lookup_new_dirs: "lookup (new_dirs now xs) q \<noteq> Some (File m c)"
  by (induction xs arbitrary: q) (case_tac q; simp)+

lemma map_of_snoc:
  "map_of es x = None \<Longrightarrow> map_of (es @ [(x, n)]) y = (if y = x then Some n else map_of es y)"
  by (auto simp: map_add_def split: option.splits)

lemma lookup_snoc:
  "map_of es x = None \<Longrightarrow>
     lookup (Dir s m' (es @ [(x, n)])) (y # ys)
       = (if y = x then lookup n ys else lookup (Dir s m es) (y # ys))"
  by (simp add: map_of_snoc del: map_of_append)

lemma lookup_absent: "map_of es x = None \<Longrightarrow> lookup (Dir s m es) (x # ys) = None"
  by simp

lemma lookup_update:
  "lookup (Dir s m' (AList.update x n es)) (y # ys)
       = (if y = x then lookup n ys else lookup (Dir s m es) (y # ys))"
  by (simp add: update_conv')

lemma os_makedirs_dirs_only:
  "os_makedirs now p t = Inr t' \<Longrightarrow> dirs_only_added t t'"
proof (induction now p t arbitrary: t' rule: os_makedirs.induct)
  case (1 now n)
  then show ?case by simp
next
  case (2 now x xs m c)
  then show ?case by simp
next
  case (3 now x xs s m es)
  show ?case
  proof (cases "map_of es x")
    case None
    with "3.prems" have t': "t' = Dir s now (es @ [(x, new_dirs now xs)])" by simp
    have "lookup t' q = Some (File m' c') \<longleftrightarrow> lookup (Dir s m es) q = Some (File m' c')" for q m' c'
      using None by (cases q) (auto simp: t' lookup_snoc [of es x s now _ _ _ m] lookup_absent lookup_new_dirs simp del: lookup.simps(3))
    moreover have "os_path_exists (Dir s m es) q \<Longrightarrow> os_path_exists t' q" for q
      using None by (cases q) (auto simp: t' lookup_snoc [of es x s now _ _ _ m] lookup_absent os_path_exists_def simp del: lookup.simps(3))
    ultimately show ?thesis by (simp add: dirs_only_added_def)
  next
    case (Some c)
    with "3.prems" obtain c' where c': "os_makedirs now xs c = Inr c'"
      and t': "t' = Dir s m (AList.update x c' es)"
      by (auto split: sum.splits)
    from "3.IH" [OF Some c'] have ih: "dirs_only_added c c'" .
    have "lookup t' q = Some (File m' c'') \<longleftrightarrow> lookup (Dir s m es) q = Some (File m' c'')" for q m' c''
      using Some ih by (cases q) (auto simp: t' update_conv' dirs_only_added_def)
    moreover have "os_path_exists (Dir s m es) q \<Longrightarrow> os_path_exists t' q" for q
      using Some ih by (cases q) (auto simp: t' update_conv' dirs_only_added_def os_path_exists_def split: option.splits)
    ultimately show ?thesis by (simp add: dirs_only_added_def)
  qed
qed

lemma makedirs_replica_effect:
  assumes "makedirs_replica p w = (r, w')"
  shows "src w' = src w \<and> clock w' = clock w \<and> faults w' = faults w
    \<and> trace w' = trace w @ [Makedirs p] \<and> dirs_only_added (rep w) (rep w')"
  using assms
  by (auto simp: makedirs_replica_def dirs_only_added_refl os_makedirs_dirs_only split: sum.splits)

lemma sync_file_effect:
  assumes "sync_file H strict root rr file tasks w = (r, w')"
  shows "src w' = src w \<and> rep w' = rep w \<and> clock w' = clock w \<and> faults w' = faults w
    \<and> (\<exists>evs. trace w' = trace w @ evs \<and> (\<forall>e\<in>set evs. is_planning_event e))"
  using assms
  by (auto simp: sync_file_def Let_def split: if_splits sum.splits prod.splits
      dest!: calculate_xxhash_fields)

lemma sync_files_effect:
  assumes "sync_files H strict root rr files tasks w = (r, w')"
  shows "src w' = src w \<and> rep w' = rep w \<and> clock w' = clock w \<and> faults w' = faults w
    \<and> (\<exists>evs. trace w' = trace w @ evs \<and> (\<forall>e\<in>set evs. is_planning_event e))"
  using assms
proof (induction files arbitrary: tasks w)
  case Nil
  then show ?case by simp
next
  case (Cons f files)
  obtain r1 w1 where s1: "sync_file H strict root rr f tasks w = (r1, w1)"
    by (cases "sync_file H strict root rr f tasks w")
  note e1 = sync_file_effect [OF s1]
  show ?case
  proof (cases r1)
    case (Inl e)
    with Cons.prems s1 e1 show ?thesis by simp
  next
    case (Inr tasks')
    with Cons.prems s1 have "sync_files H strict root rr files tasks' w1 = (r, w')" by simp
    from Cons.IH [OF this] e1 show ?thesis by auto
  qed
qed

lemma sync_visits_effect:
  assumes "sync_visits H strict visits tasks w = (r, w')"
  shows "src w' = src w \<and> clock w' = clock w \<and> faults w' = faults w
    \<and> dirs_only_added (rep w) (rep w')
    \<and> (\<exists>evs. trace w' = trace w @ evs \<and> (\<forall>e\<in>set evs. is_planning_event e))"
  using assms
proof (induction visits arbitrary: tasks w)
  case Nil
  then show ?case by (simp add: dirs_only_added_refl)
next
  case (Cons v visits)
  obtain root dirs files where v: "v = (root, dirs, files)" by (cases v)
  define mk where "mk = (if \<not> os_path_exists (rep w) root then makedirs_replica root w else (None, w))"
  obtain r1 w1 where m: "mk = (r1, w1)" by (cases mk)
  have e1: "src w1 = src w \<and> clock w1 = clock w \<and> faults w1 = faults w
    \<and> dirs_only_added (rep w) (rep w1)
    \<and> (\<exists>evs. trace w1 = trace w @ evs \<and> (\<forall>e\<in>set evs. is_planning_event e))"
    using m makedirs_replica_effect [of root w r1 w1]
    by (auto simp: mk_def dirs_only_added_refl split: if_splits)
  show ?case
  proof (cases r1)
    case (Some e)
    with Cons.prems v m e1 show ?thesis by (simp add: mk_def [symmetric])
  next
    case None
    obtain r2 w2 where f: "sync_files H strict root root files tasks w1 = (r2, w2)"
      by (cases "sync_files H strict root root files tasks w1")
    note e2 = sync_files_effect [OF f]
    show ?thesis
    proof (cases r2)
      case (Inl e)
      with Cons.prems v m None f e1 e2 show ?thesis
        by (auto simp: mk_def [symmetric])
    next
      case (Inr tasks')
      with Cons.prems v m None f have "sync_visits H strict visits tasks' w2 = (r, w')"
        by (simp add: mk_def [symmetric])
      from Cons.IH [OF this] e1 e2 show ?thesis
        by (auto intro: dirs_only_added_trans)
    qed
  qed
qed


lemma copy_attempt_events:
  assumes "copy_attempt H sp rp w = (r, w')"
  shows "\<exists>evs. trace w' = trace w @ evs \<and> (\<forall>e\<in>set evs. is_copy_event e)"
  using assms
  by (auto simp: copy_attempt_def
      split: prod.splits option.splits sum.splits
      dest!: shutil_copy2_fields calculate_xxhash_fields)

lemma copy_validate_loop_events:
  assumes "copy_validate_loop H ok sp rp n w = (res, w')"
  shows "src w' = src w \<and> clock w' = clock w
    \<and> (\<exists>evs. trace w' = trace w @ evs \<and> (\<forall>e\<in>set evs. is_copy_event e))"
  using assms
proof (induction H ok sp rp n w rule: copy_validate_loop.induct)
  case (1 H ok sp rp n w)
  show ?case
  proof (cases "n \<le> max_retries")
    case False
    with "1.prems" show ?thesis
      by (simp add: copy_validate_loop.simps [of H ok sp rp n w])
  next
    case True
    obtain r w1 where a: "copy_attempt H sp rp w = (r, w1)"
      by (cases "copy_attempt H sp rp w")
    from copy_attempt_events [OF a] copy_attempt_fields [OF a] obtain evs1 where
      e1: "trace w1 = trace w @ evs1" "\<forall>e\<in>set evs1. is_copy_event e" "src w1 = src w" "clock w1 = clock w"
      by blast
    show ?thesis
    proof (cases r)
      case (Inr b)
      show ?thesis
      proof (cases b)
        case True
        with Inr a \<open>n \<le> max_retries\<close> "1.prems" e1 show ?thesis
          by (simp add: copy_validate_loop.simps [of H ok sp rp n w])
      next
        case False
        let ?v = "emit (LogError (HashMismatch sp rp)) w1"
        have loop: "copy_validate_loop H ok sp rp (n + 1) ?v = (res, w')"
          using False Inr a \<open>n \<le> max_retries\<close> "1.prems"
          by (simp add: copy_validate_loop.simps [of H ok sp rp n w])
        from "1.IH"(2) [OF \<open>n \<le> max_retries\<close> a [symmetric] Inr _ loop] False e1
        show ?thesis by auto
      qed
    next
      case (Inl e)
      let ?v = "emit (LogError (ErrorCopying sp rp e)) w1"
      have loop: "copy_validate_loop H ok sp rp (n + 1) ?v = (res, w')"
        using Inl a \<open>n \<le> max_retries\<close> "1.prems"
        by (simp add: copy_validate_loop.simps [of H ok sp rp n w])
      from "1.IH"(1) [OF \<open>n \<le> max_retries\<close> a [symmetric] Inl loop] e1
      show ?thesis by auto
    qed
  qed
qed

lemma run_tasks_events:
  "src (run_tasks H tasks w) = src w \<and> clock (run_tasks H tasks w) = clock w
    \<and> (\<exists>evs. trace (run_tasks H tasks w) = trace w @ evs \<and> (\<forall>e\<in>set evs. is_copy_event e))"
proof (induction tasks arbitrary: w)
  case Nil
  then show ?case by simp
next
  case (Cons t tasks)
  obtain sp rp where t: "t = (sp, rp)" by (cases t)
  obtain res w1 where c: "copy_validate H sp rp w = (res, w1)"
    by (cases "copy_validate H sp rp w")
  from copy_validate_loop_events [OF c [unfolded copy_validate_def]]
  obtain evs1 where e1: "src w1 = src w" "clock w1 = clock w" "trace w1 = trace w @ evs1"
    "\<forall>e\<in>set evs1. is_copy_event e" by blast
  from Cons.IH [of "emit (LogInfo res) w1"] obtain evs2 where
    e2: "src (run_tasks H tasks (emit (LogInfo res) w1)) = src w1"
       "clock (run_tasks H tasks (emit (LogInfo res) w1)) = clock w1"
       "trace (run_tasks H tasks (emit (LogInfo res) w1)) = trace w1 @ [LogInfo res] @ evs2"
       "\<forall>e\<in>set evs2. is_copy_event e"
    by auto
  show ?case
    using e1 e2 by (auto simp: t c)
qed

lemma cleanup_files_events:
  "snd (cleanup_files S now root names d)
     = concat (map (\<lambda>x. [Remove (root @ [x]), LogInfo (FileRemoved (root @ [x]))]) (stale S root names))"
  by (induction names arbitrary: d) (simp_all add: stale_def Let_def case_prod_unfold)

lemma cleanup_dirs_events:
  "snd (cleanup_dirs S now root names d)
     = concat (map (\<lambda>x. [Rmtree (root @ [x]), LogInfo (DirectoryRemoved (root @ [x]))]) (stale S root names))"
  by (induction names arbitrary: d) (simp_all add: stale_def Let_def case_prod_unfold)

lemma cleanup_files_node: "fst (cleanup_files S now root names d) = fold (delete_entry now) (stale S root names) d"
  by (induction names arbitrary: d) (simp_all add: stale_def Let_def case_prod_unfold)

lemma cleanup_dirs_node: "fst (cleanup_dirs S now root names d) = fold (delete_entry now) (stale S root names) d"
  by (induction names arbitrary: d) (simp_all add: stale_def Let_def case_prod_unfold)

lemma cleanup_walk_events:
  "\<forall>e\<in>set (snd (cleanup_walk S now root t)). is_cleanup_event e"
  "\<forall>e\<in>set (snd (cleanup_walk_entries S now root es)). is_cleanup_event e"
proof (induction S now root t and S now root es rule: cleanup_walk_cleanup_walk_entries.induct)
  case (1 S now root m c)
  then show ?case by simp
next
  case (2 S now root s m es)
  then show ?case
    by (auto simp: case_prod_unfold cleanup_files_events cleanup_dirs_events)
next
  case (3 S now root)
  then show ?case by simp
next
  case (4 S now root e es)
  from "4.IH"(1) "4.IH"(2) [OF prod.collapse] show ?case
    by (auto simp: case_prod_unfold)
qed

lemma cleanup_replica_events:
  "src (cleanup_replica w) = src w
    \<and> (\<exists>evs. trace (cleanup_replica w) = trace w @ evs \<and> (\<forall>e\<in>set evs. is_cleanup_event e))"
  using cleanup_walk_events(1) [of "src w" "clock w" "[]" "rep w"]
  by (auto simp: cleanup_replica_def case_prod_unfold)

lemma not_Makedirs: "is_copy_event e \<or> is_cleanup_event e \<Longrightarrow> \<not> is_Makedirs e"
  by (cases e) auto



lemma extends_by_refl: "extends_by P w w"
  by (simp add: extends_by_def)

lemma extends_by_trans: "extends_by P a b \<Longrightarrow> extends_by P b c \<Longrightarrow> extends_by P a c"
  by (auto simp: extends_by_def)

lemma extends_by_mono: "extends_by P a b \<Longrightarrow> (\<And>e. P e \<Longrightarrow> Q e) \<Longrightarrow> extends_by Q a b"
  by (auto simp: extends_by_def)

lemma extends_by_xxhash:
  "calculate_xxhash H sd p w = (r, w') \<Longrightarrow> P (Xxhash sd p) \<Longrightarrow> extends_by P w w'"
  by (auto simp: extends_by_def dest!: calculate_xxhash_fields)

lemma extends_by_copy_and_log: "extends_by is_copy_event w (copy_and_log H sp rp check w)"
proof -
  obtain res w1 where c: "copy_validate_simple H sp rp check w = (res, w1)"
    by (cases "copy_validate_simple H sp rp check w")
  from copy_validate_loop_events [OF c [unfolded copy_validate_simple_def]]
  show ?thesis by (auto simp: copy_and_log_def c extends_by_def)
qed

lemma sync_file_simple_effect:
  assumes "sync_file_simple H strict root rr f w = (r, w')"
  shows "extends_by is_copy_event w w'"
proof -
  note cl = extends_by_copy_and_log
  note tr = extends_by_trans [where P = is_copy_event]
  have hx: "calculate_xxhash H sd p v = (r0, v') \<Longrightarrow> extends_by is_copy_event v v'" for sd p v r0 v'
    by (erule extends_by_xxhash) simp
  show ?thesis
    using assms
    by (auto simp: sync_file_simple_def Let_def extends_by_refl cl
        split: sum.splits if_splits prod.splits
        intro: tr hx dest: hx)
      (meson tr hx cl)
qed

lemma sync_files_simple_effect:
  assumes "sync_files_simple H strict root rr files w = (r, w')"
  shows "extends_by is_copy_event w w'"
  using assms
proof (induction files arbitrary: w)
  case Nil
  then show ?case by (simp add: extends_by_refl)
next
  case (Cons f files)
  obtain r1 w1 where s1: "sync_file_simple H strict root rr f w = (r1, w1)"
    by (cases "sync_file_simple H strict root rr f w")
  note e1 = sync_file_simple_effect [OF s1]
  show ?case
  proof (cases r1)
    case (Some e)
    with Cons.prems s1 e1 show ?thesis by simp
  next
    case None
    with Cons.prems s1 have "sync_files_simple H strict root rr files w1 = (r, w')" by simp
    from Cons.IH [OF this] e1 show ?thesis by (blast intro: extends_by_trans)
  qed
qed

lemma makedirs_replica_extends:
  "makedirs_replica p w = (r, w') \<Longrightarrow> extends_by is_Makedirs w w'"
  by (auto simp: extends_by_def dest!: makedirs_replica_effect)

lemma sync_visits_simple_effect:
  assumes "sync_visits_simple H strict visits w = (r, w')"
  shows "extends_by (\<lambda>e. is_Makedirs e \<or> is_copy_event e) w w'"
  using assms
proof (induction visits arbitrary: w)
  case Nil
  then show ?case by (simp add: extends_by_refl)
next
  case (Cons v visits)
  let ?P = "\<lambda>e. is_Makedirs e \<or> is_copy_event e"
  obtain root dirs files where v: "v = (root, dirs, files)" by (cases v)
  define mk where "mk = (if \<not> os_path_exists (rep w) root then makedirs_replica root w else (None, w))"
  obtain r1 w1 where m: "mk = (r1, w1)" by (cases mk)
  have e1: "extends_by ?P w w1"
    using m makedirs_replica_extends [of root w r1 w1]
    by (auto simp: mk_def extends_by_refl split: if_splits intro: extends_by_mono)
  show ?case
  proof (cases r1)
    case (Some e)
    with Cons.prems v m e1 show ?thesis by (simp add: mk_def [symmetric])
  next
    case None
    obtain r2 w2 where f: "sync_files_simple H strict root root files w1 = (r2, w2)"
      by (cases "sync_files_simple H strict root root files w1")
    have e2: "extends_by ?P w1 w2"
      using sync_files_simple_effect [OF f] by (rule extends_by_mono) simp
    show ?thesis
    proof (cases r2)
      case (Some e)
      with Cons.prems v m None f e1 e2 show ?thesis
        by (auto simp: mk_def [symmetric] intro: extends_by_trans)
    next
      case None2: None
      with Cons.prems v m None f have "sync_visits_simple H strict visits w2 = (r, w')"
        by (simp add: mk_def [symmetric])
      from Cons.IH [OF this] e1 e2 show ?thesis
        by (blast intro: extends_by_trans)
    qed
  qed
qed

lemma not_deletion: "is_Makedirs e \<or> is_copy_event e \<Longrightarrow> \<not> is_deletion e"
  by (cases e) auto

text \<open>
  Claim C1, as amended. In the extended variant \<^verbatim>\<open>sync_directory\<close> leaves the source
  tree as it is, leaves every regular file of the replica as it is and adds none, removes
  no path of the replica, and does nothing but create directories and read files for
  hashing; everything \<^verbatim>\<open>synchronization\<close> does after it creates no directory, so planning
  is complete before the first copy. In the simple variant \<^verbatim>\<open>sync_directory\<close> leaves the
  source tree as it is and deletes nothing (but it copies inside the traversal).
\<close>

theorem planning_effects:
  "src (snd (sync_directory H strict w)) = src w
   \<and> dirs_only_added (rep w) (rep (snd (sync_directory H strict w)))
   \<and> (\<forall>e\<in>set (new_events w (snd (sync_directory H strict w))). is_planning_event e)
   \<and> (\<exists>rest. trace (snd (synchronization H strict w))
               = trace (snd (sync_directory H strict w)) @ rest
             \<and> (\<forall>e\<in>set rest. \<not> is_Makedirs e))
   \<and> src (snd (sync_directory_simple H strict w)) = src w
   \<and> (\<forall>e\<in>set (new_events w (snd (sync_directory_simple H strict w))). \<not> is_deletion e)"
proof -
  obtain r w1 where p: "sync_directory H strict w = (r, w1)"
    by (cases "sync_directory H strict w")
  from sync_visits_effect [OF p [unfolded sync_directory_def]]
  obtain evs where e: "src w1 = src w" "dirs_only_added (rep w) (rep w1)"
    "trace w1 = trace w @ evs" "\<forall>e\<in>set evs. is_planning_event e"
    by blast
  have a: "\<exists>rest. trace (snd (synchronization H strict w)) = trace w1 @ rest
             \<and> (\<forall>e\<in>set rest. \<not> is_Makedirs e)"
  proof (cases r)
    case (Inl err)
    then show ?thesis by (simp add: synchronization_def p)
  next
    case (Inr tasks)
    from run_tasks_events [of H tasks w1] obtain evs1 where
      e1: "trace (run_tasks H tasks w1) = trace w1 @ evs1" "\<forall>e\<in>set evs1. is_copy_event e"
      by blast
    from cleanup_replica_events [of "run_tasks H tasks w1"] obtain evs2 where
      e2: "trace (cleanup_replica (run_tasks H tasks w1)) = trace (run_tasks H tasks w1) @ evs2"
        "\<forall>e\<in>set evs2. is_cleanup_event e"
      by blast
    have "\<forall>e\<in>set (evs1 @ evs2). \<not> is_Makedirs e"
      using e1(2) e2(2) not_Makedirs by auto
    with e1(1) e2(1) Inr show ?thesis
      by (simp add: synchronization_def p)
  qed
  obtain r' w2 where q: "sync_directory_simple H strict w = (r', w2)"
    by (cases "sync_directory_simple H strict w")
  from sync_visits_simple_effect [OF q [unfolded sync_directory_simple_def]]
  obtain evs' where e': "src w2 = src w" "trace w2 = trace w @ evs'"
    "\<forall>e\<in>set evs'. is_Makedirs e \<or> is_copy_event e"
    by (auto simp: extends_by_def)
  have "\<forall>e\<in>set evs'. \<not> is_deletion e"
    using e'(3) not_deletion by blast
  with e e' a show ?thesis
    by (simp add: p q new_events_append)
qed

theorem planning_effects_witness:
  "Makedirs [''docs''] \<in> set (new_events world_new_file (snd (sync_directory sample_hash False world_new_file)))
   \<and> is_planning_event (Makedirs [''docs''])
   \<and> lookup (rep world_new_file) [''stale.txt''] = Some (File 1 [1, 2])
   \<and> lookup (rep (snd (sync_directory sample_hash False world_new_file))) [''stale.txt''] = Some (File 1 [1, 2])
   \<and> Copy2 [''a.txt''] [''a.txt''] \<in> set (new_events world_new_file (snd (sync_directory_simple sample_hash False world_new_file)))
   \<and> \<not> is_deletion (Copy2 [''a.txt''] [''a.txt''])"
proof -
  have h1: "Makedirs [''docs''] \<in> set (new_events world_new_file (snd (sync_directory sample_hash False world_new_file)))"
    by code_simp
  have h2: "lookup (rep world_new_file) [''stale.txt''] = Some (File 1 [1, 2])"
    by (simp add: world_new_file_def)
  have h3: "Copy2 [''a.txt''] [''a.txt''] \<in> set (new_events world_new_file (snd (sync_directory_simple sample_hash False world_new_file)))"
    by code_simp
  show ?thesis
    using h1 h2 h3 planning_effects [of sample_hash False world_new_file]
    unfolding dirs_only_added_def by blast
qed

text \<open>
  The claim as stated fails for the simple variant: there \<^verbatim>\<open>sync_directory\<close> writes the
  file \<^verbatim>\<open>a.txt\<close> into the replica, and copies it before the directory \<^verbatim>\<open>docs\<close> is
  created.
\<close>

theorem planning_simple_counterexample:
  "lookup (rep world_new_file) [''a.txt''] = None
   \<and> lookup (rep (snd (sync_directory_simple sample_hash False world_new_file))) [''a.txt'']
       = Some (File 6 [4])
   \<and> new_events world_new_file (snd (sync_directory_simple sample_hash False world_new_file))
       = [Copy2 [''a.txt''] [''a.txt''], Xxhash Source [''a.txt''], Xxhash Replica [''a.txt''],
          LogInfo (Copied [''a.txt''] [''a.txt'']),
          Makedirs [''docs''],
          Copy2 [''docs'', ''readme.txt''] [''docs'', ''readme.txt''],
          Xxhash Source [''docs'', ''readme.txt''], Xxhash Replica [''docs'', ''readme.txt''],
          LogInfo (Copied [''docs'', ''readme.txt''] [''docs'', ''readme.txt''])]"
  by code_simp


subsection \<open>The clean-up of the replica\<close>

lemma bottom_up_append:
  "bottom_up (a @ b) \<longleftrightarrow>
     bottom_up a \<and> bottom_up b
     \<and> (\<forall>q. Rmtree q \<in> set a \<longrightarrow> (\<forall>e'\<in>set b. \<forall>p. target e' = Some p \<longrightarrow> \<not> below q p))"
  by (induction a) (auto simp: list_all_iff split: event.splits option.splits)

lemma bottom_up_after:
  "bottom_up (pre @ Rmtree q # post) \<Longrightarrow> e \<in> set post \<Longrightarrow> target e = Some p \<Longrightarrow> \<not> below q p"
  by (auto simp: bottom_up_append list_all_iff split: option.splits)

lemma targets_under_append:
  "targets_under S root (a @ b) \<longleftrightarrow> targets_under S root a \<and> targets_under S root b"
  by (auto simp: targets_under_def)

lemma targets_under_deeper:
  "targets_under S (root @ [x]) evs \<Longrightarrow> targets_under S root evs"
  unfolding targets_under_def
proof (intro ballI)
  fix e assume a: "\<forall>e\<in>set evs. \<exists>z. z \<noteq> [] \<and> target e = Some ((root @ [x]) @ z) \<and> \<not> os_path_exists S ((root @ [x]) @ z)"
    and e: "e \<in> set evs"
  then obtain z where "z \<noteq> []" "target e = Some ((root @ [x]) @ z)" "\<not> os_path_exists S ((root @ [x]) @ z)"
    by blast
  then show "\<exists>z. z \<noteq> [] \<and> target e = Some (root @ z) \<and> \<not> os_path_exists S (root @ z)"
    by (intro exI [of _ "x # z"]) simp
qed

lemma files_events_targets:
  "targets_under S root
     (concat (map (\<lambda>x. [Remove (root @ [x]), LogInfo (FileRemoved (root @ [x]))]) (stale S root names)))"
  by (auto simp: targets_under_def stale_def)

lemma dirs_events_targets:
  "targets_under S root
     (concat (map (\<lambda>x. [Rmtree (root @ [x]), LogInfo (DirectoryRemoved (root @ [x]))]) (stale S root names)))"
  by (auto simp: targets_under_def stale_def)

lemma cleanup_walk_targets:
  "targets_under S root (snd (cleanup_walk S now root t))"
  "targets_under S root (snd (cleanup_walk_entries S now root es))"
proof (induction S now root t and S now root es rule: cleanup_walk_cleanup_walk_entries.induct)
  case (1 S now root m c)
  then show ?case by (simp add: targets_under_def)
next
  case (2 S now root s m es)
  then show ?case
    by (simp add: case_prod_unfold cleanup_files_events cleanup_dirs_events
        targets_under_append files_events_targets dirs_events_targets)
next
  case (3 S now root)
  then show ?case by (simp add: targets_under_def)
next
  case (4 S now root e es)
  from "4.IH"(1) "4.IH"(2) [OF prod.collapse] show ?case
    by (simp add: case_prod_unfold targets_under_append targets_under_deeper)
qed


lemma entries_targets:
  "\<forall>e\<in>set (snd (cleanup_walk_entries S now root es)).
     \<exists>y z. y \<in> fst ` set es \<and> z \<noteq> [] \<and> target e = Some (root @ y # z)"
proof (induction es)
  case Nil
  then show ?case by simp
next
  case (Cons a es)
  have "\<forall>e\<in>set (snd (cleanup_walk S now (root @ [fst a]) (snd a))).
     \<exists>z. z \<noteq> [] \<and> target e = Some (root @ fst a # z)"
    using cleanup_walk_targets(1) [of S "root @ [fst a]" now "snd a"]
    by (auto simp: targets_under_def)
  with Cons show ?case
    by (auto simp: case_prod_unfold) blast+
qed

lemma entries_targets_other:
  assumes "x \<notin> fst ` set es" "target e = Some (root @ x # q)"
  shows "\<forall>e'\<in>set (snd (cleanup_walk_entries S now root es)). target e' \<noteq> target e"
proof
  fix e' assume "e' \<in> set (snd (cleanup_walk_entries S now root es))"
  with entries_targets [of S now root es] obtain y z where
    y: "y \<in> fst ` set es" "target e' = Some (root @ y # z)" by blast
  with assms(1) have "y \<noteq> x" by blast
  with y(2) assms(2) show "target e' \<noteq> target e" by simp
qed

lemma below_length: "below q p \<Longrightarrow> length q < length p"
  by (simp add: below_def)

lemma below_same_head: "below (root @ y # z) (root @ y' # z') \<Longrightarrow> y = y'"
  by (auto simp: below_def)

lemma bottom_up_no_rmtree: "(\<forall>q. Rmtree q \<notin> set evs) \<Longrightarrow> bottom_up evs"
  by (induction evs) (auto split: event.splits)

lemma bottom_up_files_events:
  "bottom_up (concat (map (\<lambda>x. [Remove (root @ [x]), LogInfo (FileRemoved (root @ [x]))]) names))"
  by (rule bottom_up_no_rmtree) auto

lemma bottom_up_dirs_events:
  "bottom_up (concat (map (\<lambda>x. [Rmtree (root @ [x]), LogInfo (DirectoryRemoved (root @ [x]))]) names))"
  by (induction names) (auto simp: list_all_iff below_def split: option.splits)

lemma bottom_up_walk:
  "wf_node t \<Longrightarrow> bottom_up (snd (cleanup_walk S now root t))"
  "wf_entries es \<Longrightarrow> distinct (map fst es) \<Longrightarrow> bottom_up (snd (cleanup_walk_entries S now root es))"
proof (induction S now root t and S now root es rule: cleanup_walk_cleanup_walk_entries.induct)
  case (1 S now root m c)
  then show ?case by simp
next
  case (2 S now root s m es)
  let ?e1 = "snd (cleanup_walk_entries S now root es)"
  let ?e2 = "concat (map (\<lambda>x. [Remove (root @ [x]), LogInfo (FileRemoved (root @ [x]))]) (stale S root (file_names es)))"
  let ?e3 = "concat (map (\<lambda>x. [Rmtree (root @ [x]), LogInfo (DirectoryRemoved (root @ [x]))]) (stale S root (dir_names es)))"
  have evs: "snd (cleanup_walk S now root (Dir s m es)) = ?e1 @ ?e2 @ ?e3"
    by (simp add: case_prod_unfold cleanup_files_events cleanup_dirs_events)
  have b1: "bottom_up ?e1" using 2 by simp
  have short: "\<forall>e'\<in>set (?e2 @ ?e3). \<forall>p. target e' = Some p \<longrightarrow> length p = Suc (length root)"
    by auto
  have long: "\<forall>q. Rmtree q \<in> set ?e1 \<longrightarrow> Suc (length root) < length q"
    using entries_targets [of S now root es] by fastforce
  have cross: "\<forall>q. Rmtree q \<in> set ?e1 \<longrightarrow> (\<forall>e'\<in>set (?e2 @ ?e3). \<forall>p. target e' = Some p \<longrightarrow> \<not> below q p)"
    using short long below_length by fastforce
  have b23: "bottom_up (?e2 @ ?e3)"
    by (subst bottom_up_append) (auto simp: bottom_up_files_events bottom_up_dirs_events)
  show ?case
    unfolding evs by (subst bottom_up_append) (use b1 b23 cross in blast)
next
  case (3 S now root)
  then show ?case by simp
next
  case (4 S now root e es)
  let ?c = "snd (cleanup_walk S now (root @ [fst e]) (snd e))"
  let ?r = "snd (cleanup_walk_entries S now root es)"
  have evs: "snd (cleanup_walk_entries S now root (e # es)) = ?c @ ?r"
    by (simp add: case_prod_unfold)
  have bc: "bottom_up ?c" using "4.IH"(1) "4.prems" by simp
  have br: "bottom_up ?r" using "4.IH"(2) [OF prod.collapse] "4.prems" by simp
  have hc: "\<forall>q. Rmtree q \<in> set ?c \<longrightarrow> (\<exists>z. q = root @ fst e # z)"
    using cleanup_walk_targets(1) [of S "root @ [fst e]" now "snd e"]
    by (fastforce simp: targets_under_def)
  have hr: "\<forall>e'\<in>set ?r. \<exists>y z. y \<in> fst ` set es \<and> target e' = Some (root @ y # z)"
    using entries_targets [of S now root es] by blast
  have ne: "fst e \<notin> fst ` set es" using "4.prems" by simp
  have cross: "\<forall>q. Rmtree q \<in> set ?c \<longrightarrow> (\<forall>e'\<in>set ?r. \<forall>p. target e' = Some p \<longrightarrow> \<not> below q p)"
  proof (intro allI impI ballI)
    fix q e' p
    assume "Rmtree q \<in> set ?c" "e' \<in> set ?r" "target e' = Some p"
    with hc hr obtain z y z' where "q = root @ fst e # z" "y \<in> fst ` set es" "p = root @ y # z'"
      by fastforce
    with ne below_same_head show "\<not> below q p" by blast
  qed
  show ?case
    unfolding evs by (subst bottom_up_append) (use bc br cross in blast)
qed


lemma count_stale:
  "count_list (stale S root names) x = (if os_path_exists S (root @ [x]) then 0 else count_list names x)"
  by (induction names) (auto simp: stale_def)

lemma count_files_events:
  "count_list (concat (map (\<lambda>x. [Remove (root @ [x]), LogInfo (FileRemoved (root @ [x]))]) names)) e
     = (if e = Remove (root @ [x0]) \<or> e = LogInfo (FileRemoved (root @ [x0])) then count_list names x0 else 0)"
  if "target e = Some (root @ [x0])"
  using that by (induction names) (auto split: if_splits)

lemma count_dirs_events:
  "count_list (concat (map (\<lambda>x. [Rmtree (root @ [x]), LogInfo (DirectoryRemoved (root @ [x]))]) names)) e
     = (if e = Rmtree (root @ [x0]) \<or> e = LogInfo (DirectoryRemoved (root @ [x0])) then count_list names x0 else 0)"
  if "target e = Some (root @ [x0])"
  using that by (induction names) (auto split: if_splits)

lemma count_names:
  assumes "distinct (map fst es)" "map_of es x = Some c"
  shows "count_list (file_names es) x = (if is_dir c then 0 else 1)"
    and "count_list (dir_names es) x = (if is_dir c then 1 else 0)"
  using assms
  by (induction es) (auto simp: file_names_def dir_names_def count_list_0_iff image_iff
      dest: map_of_SomeD split: if_splits)

lemma count_zero: "(\<forall>e'\<in>set evs. target e' \<noteq> target e) \<Longrightarrow> count_list evs e = 0"
  by (auto simp: count_list_0_iff)

lemma count_entries:
  assumes "distinct (map fst es)" "target e = Some (root @ x # q)" "q \<noteq> []"
  shows "count_list (snd (cleanup_walk_entries S now root es)) e
     = (case map_of es x of None \<Rightarrow> 0
        | Some c \<Rightarrow> count_list (snd (cleanup_walk S now (root @ [x]) c)) e)"
  using assms
proof (induction es)
  case Nil
  then show ?case by simp
next
  case (Cons a es)
  let ?c = "snd (cleanup_walk S now (root @ [fst a]) (snd a))"
  let ?r = "snd (cleanup_walk_entries S now root es)"
  have evs: "snd (cleanup_walk_entries S now root (a # es)) = ?c @ ?r"
    by (simp add: case_prod_unfold)
  show ?case
  proof (cases "fst a = x")
    case True
    then have "x \<notin> fst ` set es" using Cons.prems by auto
    then have "\<forall>e'\<in>set ?r. target e' \<noteq> target e"
      using Cons.prems(2) by (rule entries_targets_other)
    then have "count_list ?r e = 0" by (rule count_zero)
    with True show ?thesis
      unfolding evs by simp
  next
    case False
    have "\<forall>e'\<in>set ?c. target e' \<noteq> target e"
      using cleanup_walk_targets(1) [of S "root @ [fst a]" now "snd a"] False Cons.prems(2)
      by (fastforce simp: targets_under_def)
    then have "count_list ?c e = 0" by (rule count_zero)
    moreover have "count_list ?r e = (case map_of es x of None \<Rightarrow> 0
        | Some c \<Rightarrow> count_list (snd (cleanup_walk S now (root @ [x]) c)) e)"
      using Cons by simp
    ultimately show ?thesis using False
      unfolding evs by simp
  qed
qed

lemma wf_entries_map_of: "wf_entries es \<Longrightarrow> map_of es x = Some c \<Longrightarrow> wf_node c"
  by (induction es) (auto split: if_splits)

lemma target_removal_events: "e \<in> set (removal_events p b) \<Longrightarrow> target e = Some p"
  by (auto simp: removal_events_def split: if_splits)

lemma count_walk:
  assumes "wf_node t" "lookup t q = Some n" "q \<noteq> []" "\<not> os_path_exists S (root @ q)"
    "e \<in> set (removal_events (root @ q) (is_dir n))"
  shows "count_list (snd (cleanup_walk S now root t)) e = 1"
  using assms
proof (induction q arbitrary: t root)
  case Nil
  then show ?case by simp
next
  case (Cons x q)
  from Cons.prems(2) obtain s m es c where t: "t = Dir s m es" and c: "map_of es x = Some c"
    and l: "lookup c q = Some n"
    by (cases t) (auto split: option.splits)
  have d: "distinct (map fst es)" and wc: "wf_node c"
    using Cons.prems(1) c by (auto simp: t intro: wf_entries_map_of)
  let ?e1 = "snd (cleanup_walk_entries S now root es)"
  let ?e2 = "concat (map (\<lambda>x. [Remove (root @ [x]), LogInfo (FileRemoved (root @ [x]))]) (stale S root (file_names es)))"
  let ?e3 = "concat (map (\<lambda>x. [Rmtree (root @ [x]), LogInfo (DirectoryRemoved (root @ [x]))]) (stale S root (dir_names es)))"
  have evs: "snd (cleanup_walk S now root t) = ?e1 @ ?e2 @ ?e3"
    by (simp add: t case_prod_unfold cleanup_files_events cleanup_dirs_events)
  have te: "target e = Some (root @ x # q)"
    using Cons.prems(5) by (rule target_removal_events)
  show ?case
  proof (cases "q = []")
    case True
    then have n: "n = c" using l by simp
    have te': "target e = Some (root @ [x])" using te True by simp
    have "\<forall>e'\<in>set ?e1. target e' \<noteq> target e"
      using entries_targets [of S now root es] te' by fastforce
    then have z1: "count_list ?e1 e = 0" by (rule count_zero)
    have st: "\<not> os_path_exists S (root @ [x])" using Cons.prems(4) True by simp
    have "count_list ?e2 e + count_list ?e3 e = 1"
      using Cons.prems(5) True st
      by (auto simp: count_files_events [OF te'] count_dirs_events [OF te'] count_stale
          count_names [OF d c] n removal_events_def split: if_splits)
    with z1 show ?thesis by (simp add: evs)
  next
    case False
    have "\<forall>e'\<in>set (?e2 @ ?e3). target e' \<noteq> target e"
      using te False by (auto simp: stale_def)
    then have z: "count_list (?e2 @ ?e3) e = 0" by (rule count_zero)
    have "count_list ?e1 e = count_list (snd (cleanup_walk S now (root @ [x]) c)) e"
      using count_entries [OF d te False, of S now] c by simp
    also have "\<dots> = 1"
      using Cons.IH [OF wc l False, of "root @ [x]"] Cons.prems(4,5) by simp
    finally show ?thesis using z by (simp add: evs)
  qed
qed


lemma cleanup_replica_new_events:
  "new_events w (cleanup_replica w) = snd (cleanup_walk (src w) (clock w) [] (rep w))"
  by (simp add: cleanup_replica_def case_prod_unfold new_events_def)

lemma is_dir_delete: "is_dir (delete_entry now x d) = is_dir d"
  by (cases d) simp_all

lemma is_dir_fold_delete: "is_dir (fold (delete_entry now) names d) = is_dir d"
  by (induction names arbitrary: d) (simp_all add: is_dir_delete)

lemma lookup_delete_other:
  "x \<noteq> k \<Longrightarrow> lookup (delete_entry now k d) (x # q) = lookup d (x # q)"
  by (cases d) (simp_all add: delete_conv')

lemma lookup_fold_delete:
  "x \<notin> set names \<Longrightarrow> lookup (fold (delete_entry now) names d) (x # q) = lookup d (x # q)"
  by (induction names arbitrary: d) (auto simp: lookup_delete_other)

lemma map_of_walk_entries:
  "map_of (fst (cleanup_walk_entries S now root es)) x
     = map_option (\<lambda>c. fst (cleanup_walk S now (root @ [x]) c)) (map_of es x)"
  by (induction es) (auto simp: case_prod_unfold)

lemma cleanup_walk_node:
  "fst (cleanup_walk S now root (Dir s m es))
     = fold (delete_entry now) (stale S root (dir_names es))
         (fold (delete_entry now) (stale S root (file_names es))
            (Dir s m (fst (cleanup_walk_entries S now root es))))"
  by (simp add: case_prod_unfold cleanup_files_node cleanup_dirs_node)

lemma is_dir_cleanup_walk: "is_dir (fst (cleanup_walk S now root t)) = is_dir t"
  by (cases t) (simp_all add: cleanup_walk_node is_dir_fold_delete del: cleanup_walk.simps(2))

lemma exists_prefix: "os_path_exists S (a @ b) \<Longrightarrow> os_path_exists S a"
proof (induction a arbitrary: S)
  case Nil
  then show ?case by (simp add: os_path_exists_def)
next
  case (Cons x a)
  then show ?case
    by (cases S) (auto simp: os_path_exists_def split: option.splits)
qed

lemma in_stale: "x \<in> set (stale S root names) \<Longrightarrow> \<not> os_path_exists S (root @ [x])"
  by (simp add: stale_def)

lemma fold_delete_Dir:
  "fold (delete_entry now) names (Dir s m es)
     = Dir s (if names = [] then m else now) (filter (\<lambda>e. fst e \<notin> set names) es)"
proof (induction names arbitrary: m es)
  case Nil
  then show ?case by simp
next
  case (Cons k names)
  have "filter (\<lambda>e. fst e \<notin> set names) (AList.delete k es) = filter (\<lambda>e. fst e \<notin> set (k # names)) es"
    by (induction es) (auto simp: AList.delete_eq)
  with Cons show ?case by simp
qed

lemma walk_entries_node:
  "fst (cleanup_walk_entries S now root es)
     = map (\<lambda>e. (fst e, fst (cleanup_walk S now (root @ [fst e]) (snd e)))) es"
  by (induction es) (simp_all add: case_prod_unfold)

lemma lookup_fold_delete_in:
  "x \<in> set names \<Longrightarrow> lookup (fold (delete_entry now) names d) (x # q) = None"
proof (cases d)
  case (File m c)
  have "fold (delete_entry now) names (File m c) = File m c"
    by (induction names) simp_all
  then show ?thesis using File by simp
next
  case (Dir s m es)
  assume x: "x \<in> set names"
  have "map_of (filter (\<lambda>e. fst e \<notin> set names) es) x = None"
    using x by (induction es) auto
  then show ?thesis using Dir by (simp add: fold_delete_Dir)
qed

lemma map_of_names:
  "map_of es x = Some c \<Longrightarrow> x \<in> set (file_names es) \<or> x \<in> set (dir_names es)"
  by (force simp: file_names_def dir_names_def dest: map_of_SomeD)

lemma lookup_cleanup_walk_Cons:
  "lookup (fst (cleanup_walk S now root (Dir s m es))) (x # q)
     = (case map_of es x of
          None \<Rightarrow> None
        | Some c \<Rightarrow>
            if os_path_exists S (root @ [x]) then lookup (fst (cleanup_walk S now (root @ [x]) c)) q
            else None)"
proof -
  let ?sf = "stale S root (file_names es)"
  let ?sd = "stale S root (dir_names es)"
  let ?d1 = "Dir s m (fst (cleanup_walk_entries S now root es))"
  have node: "lookup (fst (cleanup_walk S now root (Dir s m es))) (x # q)
      = (if x \<in> set ?sd \<or> x \<in> set ?sf then None else lookup ?d1 (x # q))"
  proof (cases "x \<in> set ?sd")
    case True
    then show ?thesis unfolding cleanup_walk_node by (simp only: lookup_fold_delete_in if_True simp_thms)
  next
    case nd: False
    show ?thesis
    proof (cases "x \<in> set ?sf")
      case True
      show ?thesis unfolding cleanup_walk_node
        by (simp only: lookup_fold_delete [OF nd] lookup_fold_delete_in [OF True] True if_True simp_thms)
    next
      case nf: False
      show ?thesis unfolding cleanup_walk_node
        by (simp only: lookup_fold_delete [OF nd] lookup_fold_delete [OF nf] nd nf if_False simp_thms)
    qed
  qed
  have d1: "lookup ?d1 (x # q)
      = (case map_of es x of None \<Rightarrow> None
         | Some c \<Rightarrow> lookup (fst (cleanup_walk S now (root @ [x]) c)) q)"
    by (simp add: map_of_walk_entries split: option.splits)
  show ?thesis
  proof (cases "map_of es x")
    case None
    then show ?thesis unfolding node d1 by simp
  next
    case (Some c)
    have "(x \<in> set ?sd \<or> x \<in> set ?sf) = (\<not> os_path_exists S (root @ [x]))"
      using map_of_names [OF Some] by (auto simp: stale_def)
    then show ?thesis unfolding node d1 using Some by simp
  qed
qed

lemma cleanup_walk_exists:
  "os_path_exists (fst (cleanup_walk S now root t)) q
     = (os_path_exists t q \<and> (q = [] \<or> os_path_exists S (root @ q)))"
proof (induction q arbitrary: t root)
  case Nil
  then show ?case by (simp add: os_path_exists_def)
next
  case (Cons x q)
  show ?case
  proof (cases t)
    case (File m c)
    then show ?thesis by (simp add: os_path_exists_def)
  next
    case (Dir s m es)
    show ?thesis
    proof (cases "map_of es x")
      case None
      then show ?thesis unfolding Dir
        by (simp add: os_path_exists_def [of "fst _"] os_path_exists_def [of "Dir _ _ _"]
            lookup_cleanup_walk_Cons del: cleanup_walk.simps(2))
    next
      case (Some c)
      have l: "os_path_exists (fst (cleanup_walk S now root t)) (x # q)
          = (os_path_exists S (root @ [x]) \<and> os_path_exists (fst (cleanup_walk S now (root @ [x]) c)) q)"
        unfolding Dir
        by (simp add: os_path_exists_def [of "fst _"] lookup_cleanup_walk_Cons Some
            del: cleanup_walk.simps(2))
      have r: "os_path_exists t (x # q) = os_path_exists c q"
        unfolding Dir by (simp add: os_path_exists_def Some)
      have p: "os_path_exists S (root @ [x])" if "os_path_exists S (root @ x # q)"
        using that exists_prefix [of S "root @ [x]" q] by simp
      show ?thesis
        unfolding l r Cons.IH [of "root @ [x]" c] using p by auto
    qed
  qed
qed

lemma stale_all:
  "\<not> os_path_exists S root \<Longrightarrow> stale S root names = names"
proof -
  assume a: "\<not> os_path_exists S root"
  have "\<not> os_path_exists S (root @ [x])" for x
    using a exists_prefix [of S root "[x]"] by blast
  then show ?thesis by (simp add: stale_def)
qed

lemma cleanup_walk_empties:
  assumes "\<not> os_path_exists S root"
  shows "\<exists>m'. fst (cleanup_walk S now root (Dir s m es)) = Dir s m' []"
proof -
  let ?es1 = "fst (cleanup_walk_entries S now root es)"
  have "fst e \<in> set (file_names es) \<or> fst e \<in> set (dir_names es)" if "e \<in> set ?es1" for e
  proof -
    from that obtain a b where ab: "(a, b) \<in> set es" "fst e = a"
      by (auto simp: walk_entries_node)
    show ?thesis
    proof (cases "is_dir b")
      case True
      with ab have "a \<in> set (dir_names es)"
        by (auto simp: dir_names_def intro!: image_eqI [where x = "(a, b)"])
      with ab show ?thesis by simp
    next
      case False
      with ab have "a \<in> set (file_names es)"
        by (auto simp: file_names_def intro!: image_eqI [where x = "(a, b)"])
      with ab show ?thesis by simp
    qed
  qed
  then have "filter (\<lambda>e. fst e \<notin> set (dir_names es))
      (filter (\<lambda>e. fst e \<notin> set (file_names es)) ?es1) = []"
    by (auto simp: filter_empty_conv)
  then show ?thesis
    by (simp add: cleanup_walk_node fold_delete_Dir stale_all [OF assms] del: cleanup_walk.simps(2))
qed

lemma rep_cleanup_replica:
  "rep (cleanup_replica w) = fst (cleanup_walk (src w) (clock w) [] (rep w))"
  by (simp add: cleanup_replica_def case_prod_unfold)

text \<open>
  Claim C6. For a well-formed replica: every replica entry with nothing at its path in the
  source gets its removal call and its removal message exactly once in the clean-up;
  after the removal of a directory no event concerns a path inside it; and so, when a
  directory and an entry inside it are both without source counterpart, the removal of
  the entry comes before the removal of the directory (\<^verbatim>\<open>c.txt\<close> before \<^verbatim>\<open>B\<close>, \<^verbatim>\<open>B\<close>
  before \<^verbatim>\<open>A\<close>). The calls do remove: afterwards the replica has nothing at the path of
  any such entry, and it has something at a path exactly when it had something there
  before and the source has something there. The visit of a directory without source
  counterpart leaves it empty, so what the visit of its parent removes afterwards is an
  empty directory. The source is left as it was.
\<close>

theorem reconcile_bottom_up:
  assumes "wf_node (rep w)"
  shows "(\<forall>q n e. q \<noteq> [] \<and> lookup (rep w) q = Some n \<and> \<not> os_path_exists (src w) q
             \<and> e \<in> set (removal_events q (is_dir n))
           \<longrightarrow> count_list (new_events w (cleanup_replica w)) e = 1)
    \<and> (\<forall>pre q post e p. new_events w (cleanup_replica w) = pre @ Rmtree q # post
             \<and> e \<in> set post \<and> target e = Some p
           \<longrightarrow> \<not> below q p)
    \<and> (\<forall>q p n e. q \<noteq> [] \<and> lookup (rep w) q \<noteq> None \<and> is_dir (the (lookup (rep w) q))
             \<and> \<not> os_path_exists (src w) q
             \<and> below q p \<and> lookup (rep w) p = Some n \<and> \<not> os_path_exists (src w) p
             \<and> e \<in> set (removal_events p (is_dir n))
           \<longrightarrow> (\<exists>pre post. new_events w (cleanup_replica w) = pre @ Rmtree q # post
                  \<and> e \<in> set pre))
    \<and> (\<forall>q n. q \<noteq> [] \<and> lookup (rep w) q = Some n \<and> \<not> os_path_exists (src w) q
           \<longrightarrow> lookup (rep (cleanup_replica w)) q = None)
    \<and> (\<forall>q. os_path_exists (rep (cleanup_replica w)) q
             = (os_path_exists (rep w) q \<and> os_path_exists (src w) q))
    \<and> (\<forall>q s m es. lookup (rep w) q = Some (Dir s m es) \<and> \<not> os_path_exists (src w) q
           \<longrightarrow> (\<exists>m'. fst (cleanup_walk (src w) (clock w) q (Dir s m es)) = Dir s m' []))
    \<and> src (cleanup_replica w) = src w"
proof -
  let ?evs = "new_events w (cleanup_replica w)"
  have once: "count_list ?evs e = 1"
    if "q \<noteq> []" "lookup (rep w) q = Some n" "\<not> os_path_exists (src w) q"
      "e \<in> set (removal_events q (is_dir n))" for q n e
    using count_walk [OF assms that(2) that(1), of "src w" "[]" e "clock w"] that(3,4)
    by (simp add: cleanup_replica_new_events)
  have bu: "bottom_up ?evs"
    using bottom_up_walk(1) [OF assms] by (simp add: cleanup_replica_new_events)
  have after: "\<not> below q p"
    if "?evs = pre @ Rmtree q # post" "e \<in> set post" "target e = Some p" for pre q post e p
    using bottom_up_after [of pre q post e p] bu that by simp
  have before: "\<exists>pre post. ?evs = pre @ Rmtree q # post \<and> e \<in> set pre"
    if q: "q \<noteq> []" "lookup (rep w) q \<noteq> None" "is_dir (the (lookup (rep w) q))"
      "\<not> os_path_exists (src w) q"
      and p: "below q p" "lookup (rep w) p = Some n" "\<not> os_path_exists (src w) p"
      "e \<in> set (removal_events p (is_dir n))" for q p n e
  proof -
    from q(2) obtain k where k: "lookup (rep w) q = Some k" by blast
    have "Rmtree q \<in> set (removal_events q (is_dir k))"
      using q(3) k by (simp add: removal_events_def)
    from once [OF q(1) k q(4) this] have "Rmtree q \<in> set ?evs"
      by (metis count_list_0_iff zero_neq_one)
    then obtain pre post where sp: "?evs = pre @ Rmtree q # post"
      by (auto simp: in_set_conv_decomp)
    have pn: "p \<noteq> []" using p(1) by (auto simp: below_def)
    from once [OF pn p(2) p(3) p(4)] have ein: "e \<in> set ?evs"
      by (metis count_list_0_iff zero_neq_one)
    have te: "target e = Some p" using p(4) by (rule target_removal_events)
    have "e \<notin> set post" using after [OF sp _ te] p(1) by blast
    moreover have "e \<noteq> Rmtree q" using te p(1) by (auto simp: below_def)
    ultimately have "e \<in> set pre" using ein sp by auto
    with sp show ?thesis by blast
  qed
  have left: "os_path_exists (rep (cleanup_replica w)) q
      = (os_path_exists (rep w) q \<and> os_path_exists (src w) q)" for q
    using cleanup_walk_exists [of "src w" "clock w" "[]" "rep w" q]
    by (auto simp: rep_cleanup_replica os_path_exists_def)
  have gone: "lookup (rep (cleanup_replica w)) q = None"
    if "\<not> os_path_exists (src w) q" for q
    using left [of q] that by (simp add: os_path_exists_def)
  have empty: "\<exists>m'. fst (cleanup_walk (src w) (clock w) q (Dir s m es)) = Dir s m' []"
    if "\<not> os_path_exists (src w) q" for q s m es
    using that by (rule cleanup_walk_empties)
  have same: "src (cleanup_replica w) = src w"
    by (simp add: cleanup_replica_def case_prod_unfold)
  have c1: "\<forall>q n e. q \<noteq> [] \<and> lookup (rep w) q = Some n \<and> \<not> os_path_exists (src w) q
             \<and> e \<in> set (removal_events q (is_dir n))
           \<longrightarrow> count_list ?evs e = 1"
    using once by blast
  have c2: "\<forall>pre q post e p. ?evs = pre @ Rmtree q # post
             \<and> e \<in> set post \<and> target e = Some p
           \<longrightarrow> \<not> below q p"
    using after by blast
  have c3: "\<forall>q p n e. q \<noteq> [] \<and> lookup (rep w) q \<noteq> None \<and> is_dir (the (lookup (rep w) q))
             \<and> \<not> os_path_exists (src w) q
             \<and> below q p \<and> lookup (rep w) p = Some n \<and> \<not> os_path_exists (src w) p
             \<and> e \<in> set (removal_events p (is_dir n))
           \<longrightarrow> (\<exists>pre post. ?evs = pre @ Rmtree q # post \<and> e \<in> set pre)"
    using before by blast
  have c4: "\<forall>q n. q \<noteq> [] \<and> lookup (rep w) q = Some n \<and> \<not> os_path_exists (src w) q
           \<longrightarrow> lookup (rep (cleanup_replica w)) q = None"
    using gone by blast
  have c5: "\<forall>q. os_path_exists (rep (cleanup_replica w)) q
             = (os_path_exists (rep w) q \<and> os_path_exists (src w) q)"
    using left by blast
  have c6: "\<forall>q s m es. lookup (rep w) q = Some (Dir s m es) \<and> \<not> os_path_exists (src w) q
           \<longrightarrow> (\<exists>m'. fst (cleanup_walk (src w) (clock w) q (Dir s m es)) = Dir s m' [])"
    using empty by blast
  from c1 c2 c3 c4 c5 c6 same show ?thesis by (intro conjI)
qed


theorem reconcile_bottom_up_witness:
  "wf_node (rep world_stale_tree)
   \<and> count_list (new_events world_stale_tree (cleanup_replica world_stale_tree))
        (Remove [''A'', ''B'', ''c.txt'']) = 1
   \<and> count_list (new_events world_stale_tree (cleanup_replica world_stale_tree))
        (LogInfo (DirectoryRemoved [''A''])) = 1
   \<and> (\<exists>pre post. new_events world_stale_tree (cleanup_replica world_stale_tree)
          = pre @ Rmtree [''A'', ''B''] # post
        \<and> LogInfo (FileRemoved [''A'', ''B'', ''c.txt'']) \<in> set pre)
   \<and> (\<exists>pre post. new_events world_stale_tree (cleanup_replica world_stale_tree)
          = pre @ Rmtree [''A''] # post
        \<and> Rmtree [''A'', ''B''] \<in> set pre)
   \<and> lookup (rep world_stale_tree) [''A'', ''B'', ''c.txt''] = Some (File 1 [1, 2])
   \<and> lookup (rep (cleanup_replica world_stale_tree)) [''A'', ''B'', ''c.txt''] = None
   \<and> lookup (rep (cleanup_replica world_stale_tree)) [''A'', ''B''] = None
   \<and> lookup (rep (cleanup_replica world_stale_tree)) [''A''] = None
   \<and> os_path_exists (rep (cleanup_replica world_stale_tree)) [''keep'']
   \<and> (\<exists>m'. fst (cleanup_walk (src world_stale_tree) (clock world_stale_tree) [''A'', ''B'']
                (Dir 4096 0 [(''c.txt'', File 1 [1, 2])])) = Dir 4096 m' [])"
proof -
  have wf: "wf_node (rep world_stale_tree)" by code_simp
  have c: "[''A'', ''B'', ''c.txt''] \<noteq> []"
    "lookup (rep world_stale_tree) [''A'', ''B'', ''c.txt''] = Some (File 1 [1, 2])"
    "\<not> os_path_exists (src world_stale_tree) [''A'', ''B'', ''c.txt'']"
    "Remove [''A'', ''B'', ''c.txt''] \<in> set (removal_events [''A'', ''B'', ''c.txt''] (is_dir (File 1 [1, 2])))"
    "LogInfo (FileRemoved [''A'', ''B'', ''c.txt'']) \<in> set (removal_events [''A'', ''B'', ''c.txt''] (is_dir (File 1 [1, 2])))"
    by code_simp+
  have b: "[''A'', ''B''] \<noteq> []"
    "lookup (rep world_stale_tree) [''A'', ''B''] = Some (Dir 4096 0 [(''c.txt'', File 1 [1, 2])])"
    "lookup (rep world_stale_tree) [''A'', ''B''] \<noteq> None"
    "is_dir (the (lookup (rep world_stale_tree) [''A'', ''B'']))"
    "\<not> os_path_exists (src world_stale_tree) [''A'', ''B'']"
    "below [''A'', ''B''] [''A'', ''B'', ''c.txt'']"
    "Rmtree [''A'', ''B''] \<in> set (removal_events [''A'', ''B''] (is_dir (Dir 4096 0 [(''c.txt'', File 1 [1, 2])])))"
    by code_simp+
  have a: "[''A''] \<noteq> []"
    "lookup (rep world_stale_tree) [''A'']
       = Some (Dir 4096 0 [(''B'', Dir 4096 0 [(''c.txt'', File 1 [1, 2])])])"
    "lookup (rep world_stale_tree) [''A''] \<noteq> None"
    "is_dir (the (lookup (rep world_stale_tree) [''A'']))"
    "\<not> os_path_exists (src world_stale_tree) [''A'']"
    "below [''A''] [''A'', ''B'']"
    "LogInfo (DirectoryRemoved [''A''])
       \<in> set (removal_events [''A''] (is_dir (Dir 4096 0 [(''B'', Dir 4096 0 [(''c.txt'', File 1 [1, 2])])])))"
    by code_simp+
  have k: "os_path_exists (rep world_stale_tree) [''keep'']"
    "os_path_exists (src world_stale_tree) [''keep'']"
    by code_simp+
  note t = reconcile_bottom_up [OF wf]
  note t1 = t [THEN conjunct1]
  note t3 = t [THEN conjunct2, THEN conjunct2, THEN conjunct1]
  note t4 = t [THEN conjunct2, THEN conjunct2, THEN conjunct2, THEN conjunct1]
  note t5 = t [THEN conjunct2, THEN conjunct2, THEN conjunct2, THEN conjunct2, THEN conjunct1]
  note t6 = t [THEN conjunct2, THEN conjunct2, THEN conjunct2, THEN conjunct2, THEN conjunct2,
      THEN conjunct1]
  from t1 c have r1: "count_list (new_events world_stale_tree (cleanup_replica world_stale_tree))
        (Remove [''A'', ''B'', ''c.txt'']) = 1" by blast
  from t1 a have r2: "count_list (new_events world_stale_tree (cleanup_replica world_stale_tree))
        (LogInfo (DirectoryRemoved [''A''])) = 1" by blast
  from t3 b c have r3: "\<exists>pre post. new_events world_stale_tree (cleanup_replica world_stale_tree)
          = pre @ Rmtree [''A'', ''B''] # post
        \<and> LogInfo (FileRemoved [''A'', ''B'', ''c.txt'']) \<in> set pre" by blast
  from t3 a b have r4: "\<exists>pre post. new_events world_stale_tree (cleanup_replica world_stale_tree)
          = pre @ Rmtree [''A''] # post
        \<and> Rmtree [''A'', ''B''] \<in> set pre" by blast
  from t4 c(1,2,3) have r5: "lookup (rep (cleanup_replica world_stale_tree)) [''A'', ''B'', ''c.txt''] = None"
    by blast
  from t4 b(1,2,5) have r6: "lookup (rep (cleanup_replica world_stale_tree)) [''A'', ''B''] = None"
    by blast
  from t4 a(1,2,5) have r7: "lookup (rep (cleanup_replica world_stale_tree)) [''A''] = None"
    by blast
  from t5 [rule_format, of "[''keep'']"] k
  have r8: "os_path_exists (rep (cleanup_replica world_stale_tree)) [''keep'']"
    by blast
  from t6 b(2,5) have r9: "\<exists>m'. fst (cleanup_walk (src world_stale_tree) (clock world_stale_tree) [''A'', ''B'']
                (Dir 4096 0 [(''c.txt'', File 1 [1, 2])])) = Dir 4096 m' []"
    by blast
  from wf r1 r2 r3 r4 c(2) r5 r6 r7 r8 r9 show ?thesis by (intro conjI)
qed

lemma cleanup_walk_keeps:
  assumes "lookup t q = Some n" "os_path_exists S (root @ q)"
  shows "\<exists>k. lookup (fst (cleanup_walk S now root t)) q = Some k
           \<and> is_dir k = is_dir n \<and> (\<not> is_dir n \<longrightarrow> k = n)"
  using assms
proof (induction q arbitrary: t root)
  case Nil
  then have tn: "t = n" by simp
  show ?case
    unfolding tn by (cases n) (simp_all add: is_dir_cleanup_walk del: cleanup_walk.simps(2))
next
  case (Cons x q)
  from Cons.prems(1) obtain s m es c where t: "t = Dir s m es" and c: "map_of es x = Some c"
    and l: "lookup c q = Some n"
    by (cases t) (auto split: option.splits)
  have ex: "os_path_exists S (root @ [x])"
    using Cons.prems(2) exists_prefix [of S "root @ [x]" q] by simp
  then have nf: "x \<notin> set (stale S root (file_names es))" and nd: "x \<notin> set (stale S root (dir_names es))"
    using in_stale by blast+
  have "lookup (fst (cleanup_walk S now root t)) (x # q)
      = lookup (Dir s m (fst (cleanup_walk_entries S now root es))) (x # q)"
    unfolding t cleanup_walk_node by (simp only: lookup_fold_delete [OF nd] lookup_fold_delete [OF nf])
  also have "\<dots> = lookup (fst (cleanup_walk S now (root @ [x]) c)) q"
    by (simp add: map_of_walk_entries c)
  finally have eq: "lookup (fst (cleanup_walk S now root t)) (x # q)
      = lookup (fst (cleanup_walk S now (root @ [x]) c)) q" .
  from Cons.IH [OF l, of "root @ [x]"] Cons.prems(2) show ?case
    unfolding eq by simp
qed

text \<open>
  Claim C9. The clean-up only asks whether the source has anything at the path of a
  replica entry. When it has, whatever its kind, no event of the clean-up concerns the
  entry and the entry is still there afterwards: a regular file unchanged, a directory
  still a directory. In particular a replica file whose source path is a directory, and
  a replica directory whose source path is a file, stay as they are.
\<close>

theorem reconcile_type_blind:
  assumes "lookup (rep w) q = Some n" and "lookup (src w) q = Some n'"
  shows "(\<forall>e\<in>set (new_events w (cleanup_replica w)). target e \<noteq> Some q)
    \<and> (\<exists>k. lookup (rep (cleanup_replica w)) q = Some k
           \<and> is_dir k = is_dir n \<and> (\<not> is_dir n \<longrightarrow> k = n))"
proof
  have ex: "os_path_exists (src w) q" using assms(2) by (simp add: os_path_exists_def)
  show "\<forall>e\<in>set (new_events w (cleanup_replica w)). target e \<noteq> Some q"
    using cleanup_walk_targets(1) [of "src w" "[]" "clock w" "rep w"] ex
    by (fastforce simp: cleanup_replica_new_events targets_under_def)
  have "rep (cleanup_replica w) = fst (cleanup_walk (src w) (clock w) [] (rep w))"
    by (simp add: cleanup_replica_def case_prod_unfold)
  then show "\<exists>k. lookup (rep (cleanup_replica w)) q = Some k
           \<and> is_dir k = is_dir n \<and> (\<not> is_dir n \<longrightarrow> k = n)"
    using cleanup_walk_keeps [OF assms(1), of "src w" "[]" "clock w"] ex by simp
qed



theorem reconcile_type_blind_witness:
  "(lookup (rep world_stale_tree) [''keep''] = Some (File 3 [8])
    \<and> lookup (src world_stale_tree) [''keep''] = Some (Dir 4096 0 [])
    \<and> list_all (\<lambda>e. target e \<noteq> Some [''keep'']) (new_events world_stale_tree (cleanup_replica world_stale_tree))
    \<and> lookup (rep (cleanup_replica world_stale_tree)) [''keep''] = Some (File 3 [8]))
   \<and> (lookup (rep world_stale_tree) [''kind''] = Some (Dir 4096 4 [])
    \<and> lookup (src world_stale_tree) [''kind''] = Some (File 2 [7])
    \<and> is_dir (the (lookup (rep (cleanup_replica world_stale_tree)) [''kind''])))"
proof -
  have k1: "lookup (rep world_stale_tree) [''keep''] = Some (File 3 [8])"
    and k2: "lookup (src world_stale_tree) [''keep''] = Some (Dir 4096 0 [])"
    and d1: "lookup (rep world_stale_tree) [''kind''] = Some (Dir 4096 4 [])"
    and d2: "lookup (src world_stale_tree) [''kind''] = Some (File 2 [7])"
    by code_simp+
  from reconcile_type_blind [OF k1 k2]
  have a: "list_all (\<lambda>e. target e \<noteq> Some [''keep'']) (new_events world_stale_tree (cleanup_replica world_stale_tree))"
    and b: "lookup (rep (cleanup_replica world_stale_tree)) [''keep''] = Some (File 3 [8])"
    by (auto simp: list_all_iff)
  from reconcile_type_blind [OF d1 d2]
  have c: "is_dir (the (lookup (rep (cleanup_replica world_stale_tree)) [''kind'']))"
    by auto
  from k1 k2 d1 d2 a b c show ?thesis by blast
qed


subsection \<open>Two passes in a row\<close>

lemma dir_at_Nil [simp]: "dir_at t [] = is_dir t"
  by (simp add: dir_at_def)

lemma dir_at_Cons:
  "dir_at (Dir s m es) (x # q) = (case map_of es x of None \<Rightarrow> False | Some c \<Rightarrow> dir_at c q)"
  by (simp add: dir_at_def split: option.splits)

lemma dir_at_File [simp]: "dir_at (File m c) (x # q) = False"
  by (simp add: dir_at_def)

lemma lookup_append:
  "lookup t (a @ b) = (case lookup t a of None \<Rightarrow> None | Some n \<Rightarrow> lookup n b)"
proof (induction a arbitrary: t)
  case Nil
  then show ?case by simp
next
  case (Cons x a)
  then show ?case by (cases t) (auto split: option.splits)
qed

lemma lookup_below_dir:
  assumes "lookup t (a @ b) = Some n" "b \<noteq> []"
  shows "dir_at t a"
proof -
  from assms(1) obtain k where k: "lookup t a = Some k" "lookup k b = Some n"
    by (auto simp: lookup_append split: option.splits)
  with assms(2) have "is_dir k" by (cases k; cases b) auto
  with k show ?thesis by (simp add: dir_at_def)
qed

lemma wf_map_of: "distinct (map fst es) \<Longrightarrow> (x, c) \<in> set es \<Longrightarrow> map_of es x = Some c"
  by simp

lemma in_file_names: "f \<in> set (file_names es) \<Longrightarrow> \<exists>c. (f, c) \<in> set es \<and> \<not> is_dir c"
  by (auto simp: file_names_def)

lemma os_walk_visits:
  "wf_node t \<Longrightarrow> (root, dirs, files) \<in> set (os_walk r t) \<Longrightarrow>
     \<exists>z. root = r @ z \<and> dir_at t z
       \<and> (\<forall>f\<in>set files. \<exists>m c. lookup t (z @ [f]) = Some (File m c))"
  "wf_entries es \<Longrightarrow> (root, dirs, files) \<in> set (os_walk_entries r es) \<Longrightarrow>
     \<exists>x c z. (x, c) \<in> set es \<and> root = r @ x # z \<and> dir_at c z
       \<and> (\<forall>f\<in>set files. \<exists>m k. lookup c (z @ [f]) = Some (File m k))"
proof (induction r t and r es arbitrary: root dirs files and root dirs files
    rule: os_walk_os_walk_entries.induct)
  case (1 r m c)
  then show ?case by simp
next
  case (2 r s m es)
  from "2.prems"(2) consider "(root, dirs, files) = (r, dir_names es, file_names es)"
    | "(root, dirs, files) \<in> set (os_walk_entries r es)" by auto
  then show ?case
  proof cases
    case 1
    have "\<exists>m' k. lookup (Dir s m es) ([] @ [f]) = Some (File m' k)" if "f \<in> set files" for f
    proof -
      from that 1 obtain c where c: "(f, c) \<in> set es" "\<not> is_dir c"
        using in_file_names by blast
      with "2.prems"(1) have "map_of es f = Some c" by simp
      with c(2) show ?thesis by (cases c) auto
    qed
    with 1 show ?thesis by (intro exI [of _ "[]"]) auto
  next
    case 2
    from "2.IH" [OF _ 2] "2.prems"(1) obtain x c z where
      h: "(x, c) \<in> set es" "root = r @ x # z" "dir_at c z"
        "\<forall>f\<in>set files. \<exists>m k. lookup c (z @ [f]) = Some (File m k)"
      by auto
    from h(1) "2.prems"(1) have mo: "map_of es x = Some c" by simp
    show ?thesis
      using h mo by (intro exI [of _ "x # z"]) (auto simp: dir_at_Cons)
  qed
next
  case (3 r)
  then show ?case by simp
next
  case (4 r e es)
  from "4.prems"(2) consider "(root, dirs, files) \<in> set (os_walk (r @ [fst e]) (snd e))"
    | "(root, dirs, files) \<in> set (os_walk_entries r es)" by auto
  then show ?case
  proof cases
    case 1
    from "4.IH"(1) [OF _ 1] "4.prems"(1) obtain z where
      "root = (r @ [fst e]) @ z" "dir_at (snd e) z"
      "\<forall>f\<in>set files. \<exists>m c. lookup (snd e) (z @ [f]) = Some (File m c)"
      by auto
    then show ?thesis
      by (intro exI [of _ "fst e"] exI [of _ "snd e"] exI [of _ z]) auto
  next
    case 2
    from "4.IH"(2) [OF _ 2] "4.prems"(1) show ?thesis by auto
  qed
qed

lemma walk_files_are_files:
  assumes "wf_node S" "p \<in> set (walk_files S)"
  shows "\<exists>m c. lookup S p = Some (File m c)"
  using assms os_walk_visits(1) [of S _ _ _ "[]"]
  by (fastforce simp: walk_files_def visit_files_def)

lemma walk_roots_are_dirs:
  assumes "wf_node S" "(root, dirs, files) \<in> set (os_walk [] S)"
  shows "dir_at S root"
  using os_walk_visits(1) [OF assms] by auto


lemma dir_at_new_dirs: "dir_at (new_dirs now xs) q \<Longrightarrow> \<exists>z. xs = q @ z"
proof (induction xs arbitrary: q)
  case Nil
  then show ?case by (cases q) (simp_all add: dir_at_Cons)
next
  case (Cons x xs)
  then show ?case by (cases q) (auto simp: dir_at_Cons split: if_splits)
qed

lemma new_dirs_exists: "dir_at (new_dirs now xs) xs"
  by (induction xs) (simp_all add: dir_at_Cons)

lemma dir_at_snoc:
  "map_of es x = None \<Longrightarrow>
     dir_at (Dir s m' (es @ [(x, n)])) (y # ys)
       = (if y = x then dir_at n ys else dir_at (Dir s m es) (y # ys))"
  by (simp add: dir_at_def lookup_snoc [of es x s m' n y ys m] del: lookup.simps(3))

lemma dir_at_update:
  "dir_at (Dir s m' (AList.update x n es)) (y # ys)
       = (if y = x then dir_at n ys else dir_at (Dir s m es) (y # ys))"
  by (simp add: dir_at_def lookup_update [of s m' x n es y ys m] del: lookup.simps(3))

lemma dir_at_absent: "map_of es x = None \<Longrightarrow> dir_at (Dir s m es) (x # ys) = False"
  by (simp add: dir_at_Cons)

lemma os_makedirs_dirs:
  "os_makedirs now d R = Inr R' \<Longrightarrow>
     dir_at R' d \<and> (\<forall>q. dir_at R' q \<longrightarrow> dir_at R q \<or> (\<exists>z. d = q @ z))"
proof (induction now d R arbitrary: R' rule: os_makedirs.induct)
  case (1 now n)
  then show ?case by simp
next
  case (2 now x xs m c)
  then show ?case by simp
next
  case (3 now x xs s m es)
  show ?case
  proof (cases "map_of es x")
    case None
    with "3.prems" have R': "R' = Dir s now (es @ [(x, new_dirs now xs)])" by simp
    have a: "dir_at R' (x # xs)"
      using None by (simp add: R' dir_at_snoc [of es x s now _ x xs m] new_dirs_exists)
    have b: "dir_at (Dir s m es) q \<or> (\<exists>z. x # xs = q @ z)" if "dir_at R' q" for q
    proof (cases q)
      case Nil
      then show ?thesis by simp
    next
      case (Cons y ys)
      show ?thesis
      proof (cases "y = x")
        case True
        with that Cons None have "dir_at (new_dirs now xs) ys"
          by (simp add: R' dir_at_snoc [of es x s now _ x ys m])
        from dir_at_new_dirs [OF this] True Cons show ?thesis by auto
      next
        case False
        with that Cons None show ?thesis
          by (simp add: R' dir_at_snoc [of es x s now _ y ys m])
      qed
    qed
    from a b show ?thesis by blast
  next
    case (Some c)
    with "3.prems" obtain c' where c': "os_makedirs now xs c = Inr c'"
      and R': "R' = Dir s m (AList.update x c' es)"
      by (auto split: sum.splits)
    from "3.IH" [OF Some c'] have ih: "dir_at c' xs"
      "\<And>q. dir_at c' q \<Longrightarrow> dir_at c q \<or> (\<exists>z. xs = q @ z)" by auto
    have a: "dir_at R' (x # xs)"
      using ih(1) by (simp add: R' dir_at_update [of s m x c' es x xs m])
    have b: "dir_at (Dir s m es) q \<or> (\<exists>z. x # xs = q @ z)" if "dir_at R' q" for q
    proof (cases q)
      case Nil
      then show ?thesis by simp
    next
      case (Cons y ys)
      show ?thesis
      proof (cases "y = x")
        case True
        with that Cons have "dir_at c' ys"
          by (simp add: R' dir_at_update [of s m x c' es x ys m])
        from ih(2) [OF this] True Cons Some show ?thesis by (auto simp: dir_at_Cons)
      next
        case False
        with that Cons show ?thesis
          by (simp add: R' dir_at_update [of s m x c' es y ys m])
      qed
    qed
    from a b show ?thesis by blast
  qed
qed

lemma same_outside_refl: "same_outside P R R"
  by (simp add: same_outside_def)

lemma same_outside_trans:
  "same_outside P a b \<Longrightarrow> same_outside Q b c \<Longrightarrow> same_outside (P \<union> Q) a c"
  by (simp add: same_outside_def)

lemma same_outside_mono: "same_outside P a b \<Longrightarrow> P \<subseteq> Q \<Longrightarrow> same_outside Q a b"
  unfolding same_outside_def by blast

lemma write_file_effect:
  "write_file now p (File a b) R = Inr R' \<Longrightarrow>
     lookup R' p = Some (File a b) \<and> same_outside {p} R R'"
proof (induction now p "File a b" R arbitrary: R' rule: write_file.induct)
  case (1 now n)
  then show ?case by simp
next
  case (2 now x xs m c)
  then show ?case by simp
next
  case (3 now x s m es)
  show ?case
  proof (cases "map_of es x")
    case None
    with "3.prems" have R': "R' = Dir s now (es @ [(x, File a b)])" by simp
    have l: "lookup R' [x] = Some (File a b)"
      using None by (simp add: R' lookup_snoc [of es x s now _ x "[]" m] del: lookup.simps(3))
    have "(\<forall>m' c. lookup R' q = Some (File m' c) \<longleftrightarrow> lookup (Dir s m es) q = Some (File m' c))
        \<and> dir_at R' q = dir_at (Dir s m es) q" if "q \<noteq> [x]" for q
    proof (cases q)
      case Nil
      then show ?thesis by (simp add: R')
    next
      case (Cons y ys)
      show ?thesis
      proof (cases "y = x")
        case True
        with Cons that obtain z zs where "ys = z # zs" by (cases ys) auto
        with True Cons None show ?thesis
          by (simp add: R' lookup_snoc [of es x s now _ x _ m] dir_at_snoc [of es x s now _ x _ m]
              lookup_absent dir_at_absent del: lookup.simps(3))
      next
        case False
        with Cons None show ?thesis
          by (simp add: R' lookup_snoc [of es x s now _ y ys m] dir_at_snoc [of es x s now _ y ys m]
              del: lookup.simps(3))
      qed
    qed
    with l show ?thesis by (simp add: same_outside_def)
  next
    case (Some c)
    with "3.prems" have nd: "\<not> is_dir c" and R': "R' = Dir s m (AList.update x (File a b) es)"
      by (auto split: if_splits)
    from nd obtain m0 c0 where c: "c = File m0 c0" by (cases c) auto
    have l: "lookup R' [x] = Some (File a b)"
      by (simp add: R' lookup_update [of s m x _ es x "[]" m] del: lookup.simps(3))
    have "(\<forall>m' c. lookup R' q = Some (File m' c) \<longleftrightarrow> lookup (Dir s m es) q = Some (File m' c))
        \<and> dir_at R' q = dir_at (Dir s m es) q" if "q \<noteq> [x]" for q
    proof (cases q)
      case Nil
      then show ?thesis by (simp add: R')
    next
      case (Cons y ys)
      show ?thesis
      proof (cases "y = x")
        case True
        with Cons that obtain z zs where ys: "ys = z # zs" by (cases ys) auto
        have o1: "lookup (Dir s m es) (x # z # zs) = None" using Some c by simp
        have o2: "dir_at (Dir s m es) (x # z # zs) = False" using Some c by (simp add: dir_at_Cons)
        from True Cons ys show ?thesis
          by (simp add: R' lookup_update [of s m x _ es x _ m] dir_at_update [of s m x _ es x _ m]
              o1 o2 del: lookup.simps(3))
      next
        case False
        with Cons show ?thesis
          by (simp add: R' lookup_update [of s m x _ es y ys m] dir_at_update [of s m x _ es y ys m]
              del: lookup.simps(3))
      qed
    qed
    with l show ?thesis by (simp add: same_outside_def)
  qed
next
  case (4 now x y ys s m es)
  from "4.prems" obtain c c' where c: "map_of es x = Some c"
    and c': "write_file now (y # ys) (File a b) c = Inr c'"
    and R': "R' = Dir s m (AList.update x c' es)"
    by (auto split: option.splits sum.splits)
  from "4.hyps" [OF c c'] have ih: "lookup c' (y # ys) = Some (File a b)"
    "same_outside {y # ys} c c'" by auto
  have l: "lookup R' (x # y # ys) = Some (File a b)"
    using ih(1) by (simp add: R' lookup_update [of s m x c' es x "y # ys" m] del: lookup.simps(3))
  have "(\<forall>m' k. lookup R' q = Some (File m' k) \<longleftrightarrow> lookup (Dir s m es) q = Some (File m' k))
        \<and> dir_at R' q = dir_at (Dir s m es) q" if "q \<noteq> x # y # ys" for q
  proof (cases q)
    case Nil
    then show ?thesis by (simp add: R')
  next
    case (Cons z zs)
    show ?thesis
    proof (cases "z = x")
      case True
      with Cons that have "zs \<noteq> y # ys" by simp
      with ih(2) have "(\<forall>m' k. lookup c' zs = Some (File m' k) \<longleftrightarrow> lookup c zs = Some (File m' k))
        \<and> dir_at c' zs = dir_at c zs" by (simp add: same_outside_def)
      moreover have "lookup (Dir s m es) (x # zs) = lookup c zs" using c by simp
      moreover have "dir_at (Dir s m es) (x # zs) = dir_at c zs" using c by (simp add: dir_at_Cons)
      ultimately show ?thesis using True Cons
        by (simp add: R' lookup_update [of s m x c' es x zs m] dir_at_update [of s m x c' es x zs m]
            del: lookup.simps(3))
    next
      case False
      with Cons show ?thesis
        by (simp add: R' lookup_update [of s m x c' es z zs m] dir_at_update [of s m x c' es z zs m]
            del: lookup.simps(3))
    qed
  qed
  with l show ?case by (simp add: same_outside_def)
qed

lemma not_dir_dst:
  "\<not> dir_at R rp \<Longrightarrow> (case lookup R rp of Some (Dir s' m' es') \<Rightarrow> a | _ \<Rightarrow> b) = b"
  by (auto simp: dir_at_def split: option.splits node.splits)

lemma undetected_NoFault: "\<not> undetected H S NoFault"
  by (auto simp: undetected_def list_ex_iff split: option.splits node.splits)

lemma undetectedD:
  assumes "\<not> undetected H S (Corrupt bs)" "sp \<in> set (walk_files S)"
    "lookup S sp = Some (File m c)" "H bs = H c"
  shows "bs = c"
proof (rule ccontr)
  assume "bs \<noteq> c"
  with assms(3,4) have "case lookup S sp of Some (File m c) \<Rightarrow> collides H c (Corrupt bs) | _ \<Rightarrow> False"
    by simp
  with assms(2) have "undetected H S (Corrupt bs)"
    unfolding undetected_def list_ex_iff by blast
  with assms(1) show False by simp
qed

lemma next_fault_detected:
  assumes "next_fault v = (flt, v0)" "\<forall>f\<in>set (faults v). \<not> undetected H S f"
  shows "\<not> undetected H S flt \<and> (\<forall>f\<in>set (faults v0). \<not> undetected H S f)"
  using assms by (auto simp: next_fault_def undetected_NoFault split: list.splits)

lemma write_replica_effect:
  assumes "write_replica rp (File a b) v = (r, v')"
  shows "src v' = src v \<and> clock v' = clock v \<and> faults v' = faults v \<and> trace v' = trace v
    \<and> same_outside {rp} (rep v) (rep v')
    \<and> (r = None \<longrightarrow> lookup (rep v') rp = Some (File a b))
    \<and> (r \<noteq> None \<longrightarrow> rep v' = rep v)"
  using assms
  by (auto simp: write_replica_def same_outside_refl split: sum.splits dest: write_file_effect)

lemma file_not_dir_at: "lookup R p = Some (File a b) \<Longrightarrow> \<not> dir_at R p"
  by (simp add: dir_at_def)

lemma shutil_copy2_effect:
  assumes "shutil_copy2 sp rp v = (r, v')"
    and "lookup (src v) sp = Some (File m c)"
    and "\<not> dir_at (rep v) rp"
    and "\<forall>f\<in>set (faults v). \<not> undetected H (src v) f"
    and "sp \<in> set (walk_files (src v))"
  shows "same_outside {rp} (rep v) (rep v') \<and> \<not> dir_at (rep v') rp
    \<and> (\<forall>f\<in>set (faults v'). \<not> undetected H (src v) f)
    \<and> (r = None \<longrightarrow>
         (\<exists>bs. lookup (rep v') rp = Some (File m bs) \<and> (H bs = H c \<longrightarrow> bs = c)))"
proof -
  obtain flt v0 where nf: "next_fault (emit (Copy2 sp rp) v) = (flt, v0)"
    by (cases "next_fault (emit (Copy2 sp rp) v)")
  from next_fault_fields [OF nf] have v0: "src v0 = src v" "rep v0 = rep v" by simp_all
  from next_fault_detected [OF nf, of H "src v"] assms(4)
  have nc: "\<not> undetected H (src v) flt" "\<forall>f\<in>set (faults v0). \<not> undetected H (src v) f"
    by simp_all
  have dst: "(case lookup (rep v0) rp of Some (Dir s' m' es') \<Rightarrow> rp @ [os_path_basename sp] | _ \<Rightarrow> rp) = rp"
    using assms(3) v0 by (simp add: not_dir_dst)
  have w: "same_outside {rp} (rep v) (rep u) \<and> \<not> dir_at (rep u) rp
      \<and> (\<forall>f\<in>set (faults u). \<not> undetected H (src v) f)
      \<and> (e = None \<longrightarrow> lookup (rep u) rp = Some (File a b))"
    if "write_replica rp (File a b) v0 = (e, u)" for a b e u
  proof -
    from write_replica_effect [OF that] v0 nc(2) assms(3)
    show ?thesis by (cases e) (auto simp: file_not_dir_at)
  qed
  show ?thesis
  proof (cases flt)
    case NoFault
    with assms(1) nf assms(2) v0 dst have "write_replica rp (File m c) v0 = (r, v')"
      by (simp add: shutil_copy2_def Let_def)
    from w [OF this] show ?thesis by simp
  next
    case CopyError
    with assms(1) nf assms(2) v0 dst have "v' = v0" "r = Some OSError"
      by (simp_all add: shutil_copy2_def Let_def)
    with v0 nc assms(3) show ?thesis by (simp add: same_outside_refl)
  next
    case (PartialWrite bs)
    obtain e u where wr: "write_replica rp (File (clock v0) bs) v0 = (e, u)"
      by (cases "write_replica rp (File (clock v0) bs) v0")
    with PartialWrite assms(1) nf assms(2) v0 dst have "v' = u" "r \<noteq> None"
      by (auto simp: shutil_copy2_def Let_def split: option.splits)
    with w [OF wr] show ?thesis by auto
  next
    case (Corrupt bs)
    with assms(1) nf assms(2) v0 dst have wr: "write_replica rp (File m bs) v0 = (r, v')"
      by (simp add: shutil_copy2_def Let_def)
    have "H bs = H c \<longrightarrow> bs = c"
      using undetectedD [OF _ assms(5) assms(2)] nc(1) Corrupt by blast
    with w [OF wr] show ?thesis by simp
  qed
qed

lemma copy_attempt_effect:
  assumes "copy_attempt H sp rp v = (r, v')"
    and "lookup (src v) sp = Some (File m c)"
    and "\<not> dir_at (rep v) rp"
    and "\<forall>f\<in>set (faults v). \<not> undetected H (src v) f"
    and "sp \<in> set (walk_files (src v))"
  shows "same_outside {rp} (rep v) (rep v') \<and> \<not> dir_at (rep v') rp
    \<and> (\<forall>f\<in>set (faults v'). \<not> undetected H (src v) f)
    \<and> (r = Inr True \<longrightarrow> lookup (rep v') rp = Some (File m c))"
proof -
  obtain e v1 where c: "shutil_copy2 sp rp v = (e, v1)" by (cases "shutil_copy2 sp rp v")
  note e1 = shutil_copy2_effect [OF c assms(2,3,4,5)]
  show ?thesis
  proof (cases e)
    case (Some err)
    with assms(1) c have "v' = v1" "r \<noteq> Inr True" by (auto simp: copy_attempt_def)
    with e1 show ?thesis by simp
  next
    case None
    with e1 obtain bs where bs: "lookup (rep v1) rp = Some (File m bs)" "H bs = H c \<longrightarrow> bs = c"
      by blast
    let ?v2 = "emit (Xxhash Source sp) v1"
    let ?v3 = "emit (Xxhash Replica rp) ?v2"
    have s1: "lookup (tree Source v1) sp = Some (File m c)"
      using shutil_copy2_fields [OF c] assms(2) by (simp add: tree_def)
    have s2: "lookup (tree Replica ?v2) rp = Some (File m bs)"
      using bs(1) by (simp add: emit_def tree_def)
    have "copy_attempt H sp rp v = (Inr (H c = H bs), ?v3)"
      by (simp add: copy_attempt_def c None calculate_xxhash_file [OF s1]
          calculate_xxhash_file [OF s2])
    with assms(1) have r: "r = Inr (H c = H bs)" "v' = ?v3" by simp_all
    have "rep v' = rep v1 \<and> faults v' = faults v1" using r(2) by (simp add: emit_def)
    with e1 bs r(1) show ?thesis by auto
  qed
qed

lemma copy_validate_loop_effect:
  assumes "copy_validate_loop H ok sp rp n v = (res, v')"
    and "lookup (src v) sp = Some (File m c)"
    and "\<not> dir_at (rep v) rp"
    and "\<forall>f\<in>set (faults v). \<not> undetected H (src v) f"
    and "sp \<in> set (walk_files (src v))"
  shows "same_outside {rp} (rep v) (rep v') \<and> \<not> dir_at (rep v') rp
    \<and> (\<forall>f\<in>set (faults v'). \<not> undetected H (src v) f)
    \<and> (res = ok \<and> lookup (rep v') rp = Some (File m c) \<or> res = Failed sp max_retries)"
  using assms
proof (induction H ok sp rp n v rule: copy_validate_loop.induct)
  case (1 H ok sp rp n v)
  show ?case
  proof (cases "n \<le> max_retries")
    case False
    with "1.prems" show ?thesis
      by (simp add: copy_validate_loop.simps [of H ok sp rp n v] same_outside_refl)
  next
    case True
    obtain r v1 where a: "copy_attempt H sp rp v = (r, v1)"
      by (cases "copy_attempt H sp rp v")
    note e1 = copy_attempt_effect [OF a "1.prems"(2,3,4,5)]
    from copy_attempt_fields [OF a] have s1: "src v1 = src v" by simp
    have step: ?thesis
      if loop: "copy_validate_loop H ok sp rp (n + 1) (emit ev v1) = (res, v')"
        and ih: "lookup (src (emit ev v1)) sp = Some (File m c) \<Longrightarrow> \<not> dir_at (rep (emit ev v1)) rp
          \<Longrightarrow> \<forall>f\<in>set (faults (emit ev v1)). \<not> undetected H (src (emit ev v1)) f
          \<Longrightarrow> sp \<in> set (walk_files (src (emit ev v1)))
          \<Longrightarrow> same_outside {rp} (rep (emit ev v1)) (rep v') \<and> \<not> dir_at (rep v') rp
            \<and> (\<forall>f\<in>set (faults v'). \<not> undetected H (src (emit ev v1)) f)
            \<and> (res = ok \<and> lookup (rep v') rp = Some (File m c) \<or> res = Failed sp max_retries)"
      for ev
    proof -
      from ih e1 s1 "1.prems"(2,5) have
        r: "same_outside {rp} (rep v1) (rep v')" "\<not> dir_at (rep v') rp"
          "\<forall>f\<in>set (faults v'). \<not> undetected H (src v) f"
          "res = ok \<and> lookup (rep v') rp = Some (File m c) \<or> res = Failed sp max_retries"
        by simp_all
      from same_outside_trans [OF conjunct1 [OF e1] r(1)] r show ?thesis by simp
    qed
    show ?thesis
    proof (cases r)
      case (Inr b)
      show ?thesis
      proof (cases b)
        case True
        with Inr a \<open>n \<le> max_retries\<close> "1.prems"(1) have "res = ok" "v' = v1"
          by (simp_all add: copy_validate_loop.simps [of H ok sp rp n v])
        with e1 Inr True show ?thesis by simp
      next
        case False
        let ?ev = "LogError (HashMismatch sp rp)"
        have loop: "copy_validate_loop H ok sp rp (n + 1) (emit ?ev v1) = (res, v')"
          using False Inr a \<open>n \<le> max_retries\<close> "1.prems"(1)
          by (simp add: copy_validate_loop.simps [of H ok sp rp n v])
        show ?thesis
          by (rule step [OF loop]) (rule "1.IH"(2) [OF \<open>n \<le> max_retries\<close> a [symmetric] Inr _ loop], use False in simp_all)
      qed
    next
      case (Inl e)
      let ?ev = "LogError (ErrorCopying sp rp e)"
      have loop: "copy_validate_loop H ok sp rp (n + 1) (emit ?ev v1) = (res, v')"
        using Inl a \<open>n \<le> max_retries\<close> "1.prems"(1)
        by (simp add: copy_validate_loop.simps [of H ok sp rp n v])
      show ?thesis
        by (rule step [OF loop]) (rule "1.IH"(1) [OF \<open>n \<le> max_retries\<close> a [symmetric] Inl loop], simp_all)
    qed
  qed
qed


lemma run_tasks_effect:
  assumes "\<forall>t\<in>set tasks. fst t = snd t \<and> (\<exists>m c. lookup (src v) (fst t) = Some (File m c))"
    and "\<forall>t\<in>set tasks. \<not> dir_at (rep v) (snd t)"
    and "\<forall>f\<in>set (faults v). \<not> undetected H (src v) f"
    and "\<forall>e\<in>set (new_events v (run_tasks H tasks v)). \<not> is_failure e"
    and "\<forall>t\<in>set tasks. fst t \<in> set (walk_files (src v))"
  shows "same_outside (snd ` set tasks) (rep v) (rep (run_tasks H tasks v))
    \<and> (\<forall>t\<in>set tasks. lookup (rep (run_tasks H tasks v)) (snd t) = lookup (src v) (fst t))"
  using assms
proof (induction tasks arbitrary: v)
  case Nil
  then show ?case by (simp add: same_outside_refl)
next
  case (Cons t tasks)
  obtain sp rp where t: "t = (sp, rp)" by (cases t)
  from Cons.prems(1) t obtain m c where p: "sp = rp" "lookup (src v) rp = Some (File m c)" by auto
  obtain res v1 where cv: "copy_validate H rp rp v = (res, v1)"
    by (cases "copy_validate H rp rp v")
  let ?v1 = "emit (LogInfo res) v1"
  let ?fin = "run_tasks H tasks ?v1"
  have fin: "run_tasks H (t # tasks) v = ?fin" by (simp add: t p cv)
  have nd: "\<not> dir_at (rep v) rp" using Cons.prems(2) t by simp
  note cl = cv [unfolded copy_validate_def]
  have inw: "rp \<in> set (walk_files (src v))" using Cons.prems(5) t p(1) by simp
  from copy_validate_loop_effect [OF cl p(2) nd Cons.prems(3) inw]
  have e1: "same_outside {rp} (rep v) (rep v1)" "\<not> dir_at (rep v1) rp"
    "\<forall>f\<in>set (faults v1). \<not> undetected H (src v) f"
    "res = Copied rp rp \<and> lookup (rep v1) rp = Some (File m c) \<or> res = Failed rp max_retries"
    by simp_all
  from copy_validate_loop_events [OF cl] obtain evs1 where
    t1: "src v1 = src v" "trace v1 = trace v @ evs1" by blast
  from run_tasks_events [of H tasks ?v1] obtain evs2 where
    t2: "trace ?fin = trace ?v1 @ evs2" by blast
  have ne: "new_events v ?fin = evs1 @ [LogInfo res] @ evs2"
    using t1 t2 by (simp add: new_events_def)
  have ne2: "new_events ?v1 ?fin = evs2"
    using t2 by (simp add: new_events_def)
  from Cons.prems(4) have nf: "\<not> is_failure (LogInfo res)" "\<forall>e\<in>set evs2. \<not> is_failure e"
    unfolding fin ne by simp_all
  with e1(4) have ok: "lookup (rep v1) rp = Some (File m c)" by auto
  have pre1: "\<forall>t\<in>set tasks. fst t = snd t \<and> (\<exists>m c. lookup (src ?v1) (fst t) = Some (File m c))"
    using Cons.prems(1) t1 by auto
  have pre2: "\<forall>t\<in>set tasks. \<not> dir_at (rep ?v1) (snd t)"
  proof
    fix u assume u: "u \<in> set tasks"
    show "\<not> dir_at (rep ?v1) (snd u)"
    proof (cases "snd u = rp")
      case True
      with e1(2) show ?thesis by simp
    next
      case False
      with e1(1) have "dir_at (rep v1) (snd u) = dir_at (rep v) (snd u)"
        by (simp add: same_outside_def)
      with Cons.prems(2) u show ?thesis by simp
    qed
  qed
  have pre3: "\<forall>f\<in>set (faults ?v1). \<not> undetected H (src ?v1) f" using e1(3) t1 by simp
  have pre5: "\<forall>t\<in>set tasks. fst t \<in> set (walk_files (src ?v1))" using Cons.prems(5) t1 by simp
  have pre4: "\<forall>e\<in>set (new_events ?v1 ?fin). \<not> is_failure e" using nf(2) ne2 by simp
  from Cons.IH [OF pre1 pre2 pre3 pre4 pre5]
  have ih: "same_outside (snd ` set tasks) (rep v1) (rep ?fin)"
    "\<forall>t\<in>set tasks. lookup (rep ?fin) (snd t) = lookup (src v) (fst t)"
    using t1 by simp_all
  have so: "same_outside (snd ` set (t # tasks)) (rep v) (rep ?fin)"
    using same_outside_trans [OF e1(1) ih(1)] by (simp add: t)
  have hd: "lookup (rep ?fin) rp = Some (File m c)"
  proof (cases "rp \<in> snd ` set tasks")
    case True
    then obtain u where u: "u \<in> set tasks" "snd u = rp" by auto
    with Cons.prems(1) have "fst u = rp" by simp
    with ih(2) u p(2) show ?thesis by force
  next
    case False
    with ih(1) ok show ?thesis by (simp add: same_outside_def)
  qed
  show ?case
    unfolding fin using so hd ih(2) p by (simp add: t)
qed

lemma visit_files_Cons:
  "visit_files ((root, dirs, files) # visits) = map (\<lambda>f. root @ [f]) files @ visit_files visits"
  by (simp add: visit_files_def)

lemma visit_files_Nil [simp]: "visit_files [] = []"
  by (simp add: visit_files_def)

lemma extends_by_emit: "P e \<Longrightarrow> extends_by P w (emit e w)"
  by (simp add: extends_by_def)

lemma up_to_date_files:
  "up_to_date H strict S R p \<Longrightarrow> (\<exists>m c. lookup S p = Some (File m c)) \<and> \<not> dir_at R p"
proof -
  assume u: "up_to_date H strict S R p"
  then obtain m c where s: "lookup S p = Some (File m c)"
    by (cases "lookup S p"; cases "the (lookup S p)") (auto simp: up_to_date_def)
  with u obtain m' c' where "lookup R p = Some (File m' c')"
    by (cases "lookup R p"; cases "the (lookup R p)") (auto simp: up_to_date_def)
  with s show ?thesis by (simp add: dir_at_def)
qed

lemma sync_file_result:
  assumes "lookup (src v) (root @ [f]) = Some (File m c)" "\<not> dir_at (rep v) (root @ [f])"
  shows "\<exists>v'. sync_file H strict root root f tasks v
       = (Inr (if up_to_date H strict (src v) (rep v) (root @ [f]) then tasks
               else tasks @ [(root @ [f], root @ [f])]), v')
     \<and> rep v' = rep v \<and> src v' = src v \<and> clock v' = clock v \<and> faults v' = faults v
     \<and> extends_by is_Xxhash v v'"
proof (cases "lookup (rep v) (root @ [f])")
  case None
  then have "modified_check v (root @ [f]) (root @ [f]) = Inr False"
    by (simp add: modified_check_def os_path_exists_def)
  moreover have "\<not> up_to_date H strict (src v) (rep v) (root @ [f])"
    using None assms(1) by (simp add: up_to_date_def)
  ultimately show ?thesis
    by (simp add: sync_file_def Let_def extends_by_refl)
next
  case (Some n)
  with assms(2) obtain m' c' where n: "n = File m' c'"
    by (cases n) (auto simp: dir_at_def)
  have mc: "modified_check v (root @ [f]) (root @ [f]) = Inr (length c = length c' \<and> m = m')"
    using Some n assms(1) by (auto simp: modified_check_def os_path_exists_def os_stat_def)
  show ?thesis
  proof (cases "length c = length c' \<and> m = m'")
    case False
    then have "\<not> up_to_date H strict (src v) (rep v) (root @ [f])"
      using Some n assms(1) by (auto simp: up_to_date_def)
    with mc False show ?thesis
      by (simp add: sync_file_def Let_def extends_by_refl)
  next
    case True
    show ?thesis
    proof (cases strict)
      case False
      have "up_to_date H strict (src v) (rep v) (root @ [f])"
        using Some n assms(1) True False by (simp add: up_to_date_def)
      with mc True False show ?thesis
        by (simp add: sync_file_def Let_def extends_by_refl)
    next
      case strict: True
      let ?v1 = "emit (Xxhash Source (root @ [f])) v"
      let ?v2 = "emit (Xxhash Replica (root @ [f])) ?v1"
      have hs: "calculate_xxhash H Source (root @ [f]) v = (Inr (H c), ?v1)"
        using assms(1) by (intro calculate_xxhash_file) (simp add: tree_def)
      have hr: "calculate_xxhash H Replica (root @ [f]) ?v1 = (Inr (H c'), ?v2)"
        using Some n by (intro calculate_xxhash_file) (simp add: tree_def)
      have u: "up_to_date H strict (src v) (rep v) (root @ [f]) \<longleftrightarrow> H c' = H c"
        using Some n assms(1) True strict by (simp add: up_to_date_def)
      have ex: "extends_by is_Xxhash v ?v2"
        by (rule extends_by_trans [OF extends_by_emit extends_by_emit]) simp_all
      have "sync_file H strict root root f tasks v
          = (Inr (if H c \<noteq> H c' then tasks @ [(root @ [f], root @ [f])] else tasks), ?v2)"
        using mc True strict hs hr by (simp add: sync_file_def Let_def)
      with u ex show ?thesis by auto
    qed
  qed
qed

lemma sync_files_up_to_date:
  assumes "\<forall>f\<in>set files. up_to_date H strict (src v) (rep v) (root @ [f])"
  shows "\<exists>v'. sync_files H strict root root files tasks v = (Inr tasks, v')
     \<and> rep v' = rep v \<and> src v' = src v \<and> extends_by is_Xxhash v v'"
  using assms
proof (induction files arbitrary: v)
  case Nil
  then show ?case by (simp add: extends_by_refl)
next
  case (Cons f files)
  from Cons.prems have u: "up_to_date H strict (src v) (rep v) (root @ [f])" by simp
  from up_to_date_files [OF u] obtain m c where
    a: "lookup (src v) (root @ [f]) = Some (File m c)" "\<not> dir_at (rep v) (root @ [f])" by blast
  from sync_file_result [OF a, of H strict tasks] u obtain v1 where
    s1: "sync_file H strict root root f tasks v = (Inr tasks, v1)"
      "rep v1 = rep v" "src v1 = src v" "extends_by is_Xxhash v v1"
    by auto
  from Cons.prems s1 have "\<forall>f\<in>set files. up_to_date H strict (src v1) (rep v1) (root @ [f])" by simp
  from Cons.IH [OF this] obtain v' where
    "sync_files H strict root root files tasks v1 = (Inr tasks, v')"
    "rep v' = rep v1" "src v' = src v1" "extends_by is_Xxhash v1 v'" by blast
  with s1 show ?case
    by (auto intro: extends_by_trans)
qed

lemma sync_visits_up_to_date:
  assumes "\<forall>a\<in>set visits.
      os_path_exists (rep v) (fst a)
      \<and> (\<forall>f\<in>set (snd (snd a)). up_to_date H strict (src v) (rep v) (fst a @ [f]))"
  shows "\<exists>v'. sync_visits H strict visits tasks v = (Inr tasks, v')
     \<and> rep v' = rep v \<and> src v' = src v \<and> extends_by is_Xxhash v v'"
  using assms
proof (induction visits arbitrary: v)
  case Nil
  then show ?case by (simp add: extends_by_refl)
next
  case (Cons a visits)
  obtain root dirs files where a: "a = (root, dirs, files)" by (cases a)
  from Cons.prems a have ex: "os_path_exists (rep v) root"
    and up: "\<forall>f\<in>set files. up_to_date H strict (src v) (rep v) (root @ [f])" by auto
  from sync_files_up_to_date [OF up, of tasks] obtain v1 where
    s1: "sync_files H strict root root files tasks v = (Inr tasks, v1)"
      "rep v1 = rep v" "src v1 = src v" "extends_by is_Xxhash v v1" by blast
  from Cons.prems s1 have "\<forall>a\<in>set visits.
      os_path_exists (rep v1) (fst a)
      \<and> (\<forall>f\<in>set (snd (snd a)). up_to_date H strict (src v1) (rep v1) (fst a @ [f]))"
    by simp
  from Cons.IH [OF this] obtain v' where
    "sync_visits H strict visits tasks v1 = (Inr tasks, v')"
    "rep v' = rep v1" "src v' = src v1" "extends_by is_Xxhash v1 v'" by blast
  with s1 ex show ?case
    by (auto simp: a intro: extends_by_trans)
qed


lemma up_to_date_iff:
  "up_to_date H strict S R p \<longleftrightarrow>
     (\<exists>m c c'. lookup S p = Some (File m c) \<and> lookup R p = Some (File m c')
        \<and> length c' = length c \<and> (strict \<longrightarrow> H c' = H c))"
proof (cases "lookup S p")
  case None
  then show ?thesis by (simp add: up_to_date_def)
next
  case (Some n)
  show ?thesis
  proof (cases n)
    case (Dir s m es)
    with Some show ?thesis by (simp add: up_to_date_def)
  next
    case (File m c)
    show ?thesis
    proof (cases "lookup R p")
      case None
      with Some File show ?thesis by (simp add: up_to_date_def)
    next
      case some: (Some k)
      with Some File show ?thesis
        by (cases k) (auto simp: up_to_date_def)
    qed
  qed
qed

lemma up_to_date_dirs_only_added:
  "dirs_only_added R R' \<Longrightarrow> up_to_date H strict S R' p = up_to_date H strict S R p"
  by (simp add: up_to_date_iff dirs_only_added_def)

lemma file_no_dir_below: "lookup S p = Some (File m c) \<Longrightarrow> \<not> dir_at S (p @ z)"
  by (cases z) (simp_all add: dir_at_def lookup_append)

lemma dir_at_exists: "dir_at R q \<Longrightarrow> os_path_exists R q"
  by (auto simp: dir_at_def os_path_exists_def split: option.splits)

lemma sync_files_first:
  assumes "\<forall>f\<in>set files. (\<exists>m c. lookup (src v) (root @ [f]) = Some (File m c))
      \<and> \<not> dir_at (rep v) (root @ [f])"
  shows "\<exists>tasks' v'. sync_files H strict root root files tasks v = (Inr tasks', v')
     \<and> rep v' = rep v \<and> src v' = src v \<and> clock v' = clock v \<and> faults v' = faults v
     \<and> set tasks \<subseteq> set tasks'
     \<and> set tasks' \<subseteq> set tasks \<union> (\<lambda>f. (root @ [f], root @ [f])) ` set files
     \<and> (\<forall>f\<in>set files. (root @ [f], root @ [f]) \<in> set tasks'
           \<or> up_to_date H strict (src v) (rep v) (root @ [f]))"
  using assms
proof (induction files arbitrary: tasks v)
  case Nil
  then show ?case by simp
next
  case (Cons f files)
  from Cons.prems obtain m c where
    a: "lookup (src v) (root @ [f]) = Some (File m c)" "\<not> dir_at (rep v) (root @ [f])" by auto
  define tasks1 where "tasks1 = (if up_to_date H strict (src v) (rep v) (root @ [f]) then tasks
               else tasks @ [(root @ [f], root @ [f])])"
  from sync_file_result [OF a, of H strict tasks] obtain v1 where
    s1: "sync_file H strict root root f tasks v = (Inr tasks1, v1)"
      "rep v1 = rep v" "src v1 = src v" "clock v1 = clock v" "faults v1 = faults v"
    unfolding tasks1_def by blast
  from Cons.prems s1 have "\<forall>f\<in>set files. (\<exists>m c. lookup (src v1) (root @ [f]) = Some (File m c))
      \<and> \<not> dir_at (rep v1) (root @ [f])" by simp
  from Cons.IH [OF this, of tasks1] obtain tasks' v' where
    ih: "sync_files H strict root root files tasks1 v1 = (Inr tasks', v')"
      "rep v' = rep v1" "src v' = src v1" "clock v' = clock v1" "faults v' = faults v1"
      "set tasks1 \<subseteq> set tasks'"
      "set tasks' \<subseteq> set tasks1 \<union> (\<lambda>f. (root @ [f], root @ [f])) ` set files"
      "\<forall>f\<in>set files. (root @ [f], root @ [f]) \<in> set tasks'
           \<or> up_to_date H strict (src v1) (rep v1) (root @ [f])"
    by blast
  have t1: "set tasks \<subseteq> set tasks1" "set tasks1 \<subseteq> set tasks \<union> {(root @ [f], root @ [f])}"
    "(root @ [f], root @ [f]) \<in> set tasks1 \<or> up_to_date H strict (src v) (rep v) (root @ [f])"
    by (auto simp: tasks1_def)
  show ?case
    apply (rule exI [of _ tasks'], rule exI [of _ v'])
    using s1 ih t1 by auto
qed

lemma sync_visits_first:
  assumes "sync_visits H strict visits tasks v = (Inr tasks', v')"
    and "\<forall>a\<in>set visits. dir_at (src v) (fst a)
          \<and> (\<forall>f\<in>set (snd (snd a)). \<exists>m c. lookup (src v) (fst a @ [f]) = Some (File m c))"
    and "\<forall>p\<in>P. (\<exists>m c. lookup (src v) p = Some (File m c)) \<and> \<not> dir_at (rep v) p"
    and "set (visit_files visits) \<subseteq> P"
  shows "(\<forall>p\<in>P. \<not> dir_at (rep v') p)
    \<and> (\<forall>a\<in>set visits. os_path_exists (rep v') (fst a))
    \<and> set tasks \<subseteq> set tasks'
    \<and> set tasks' \<subseteq> set tasks \<union> (\<lambda>p. (p, p)) ` set (visit_files visits)
    \<and> (\<forall>p\<in>set (visit_files visits). (p, p) \<in> set tasks' \<or> up_to_date H strict (src v) (rep v') p)"
  using assms
proof (induction visits arbitrary: tasks v)
  case Nil
  then show ?case by simp
next
  case (Cons a visits)
  obtain root dirs files where a: "a = (root, dirs, files)" by (cases a)
  from Cons.prems(2) a have droot: "dir_at (src v) root"
    and sfiles: "\<forall>f\<in>set files. \<exists>m c. lookup (src v) (root @ [f]) = Some (File m c)" by auto
  define mk where "mk = (if \<not> os_path_exists (rep v) root then makedirs_replica root v else (None, v))"
  obtain r1 v1 where m: "mk = (r1, v1)" by (cases mk)
  have r1: "r1 = None"
    using Cons.prems(1) m by (cases r1) (simp_all add: a mk_def [symmetric])
  have f1: "src v1 = src v" "clock v1 = clock v"
    using m makedirs_replica_effect [of root v r1 v1] by (auto simp: mk_def split: if_splits)
  have d1: "os_path_exists (rep v1) root
      \<and> (\<forall>q. dir_at (rep v1) q \<longrightarrow> dir_at (rep v) q \<or> (\<exists>z. root = q @ z))"
  proof (cases "os_path_exists (rep v) root")
    case True
    with m show ?thesis by (simp add: mk_def)
  next
    case False
    with m r1 have "os_makedirs (clock v) root (rep v) = Inr (rep v1)"
      by (auto simp: mk_def makedirs_replica_def split: sum.splits)
    from os_makedirs_dirs [OF this] show ?thesis by (auto intro: dir_at_exists)
  qed
  have P1: "\<forall>p\<in>P. (\<exists>m c. lookup (src v1) p = Some (File m c)) \<and> \<not> dir_at (rep v1) p"
  proof
    fix p assume p: "p \<in> P"
    with Cons.prems(3) obtain m0 c0 where sp: "lookup (src v) p = Some (File m0 c0)"
      and nd: "\<not> dir_at (rep v) p" by blast
    have "\<not> dir_at (rep v1) p"
    proof
      assume "dir_at (rep v1) p"
      with d1 nd obtain z where "root = p @ z" by blast
      with droot file_no_dir_below [OF sp] show False by simp
    qed
    with sp f1 show "(\<exists>m c. lookup (src v1) p = Some (File m c)) \<and> \<not> dir_at (rep v1) p" by simp
  qed
  have inP: "\<forall>f\<in>set files. root @ [f] \<in> P"
    using Cons.prems(4) by (auto simp: a visit_files_Cons)
  have "\<forall>f\<in>set files. (\<exists>m c. lookup (src v1) (root @ [f]) = Some (File m c))
      \<and> \<not> dir_at (rep v1) (root @ [f])"
    using P1 inP by blast
  from sync_files_first [OF this, of H strict tasks] obtain tasks1 v2 where
    s2: "sync_files H strict root root files tasks v1 = (Inr tasks1, v2)"
      "rep v2 = rep v1" "src v2 = src v1"
      "set tasks \<subseteq> set tasks1"
      "set tasks1 \<subseteq> set tasks \<union> (\<lambda>f. (root @ [f], root @ [f])) ` set files"
      "\<forall>f\<in>set files. (root @ [f], root @ [f]) \<in> set tasks1
           \<or> up_to_date H strict (src v1) (rep v1) (root @ [f])"
    by blast
  have rest: "sync_visits H strict visits tasks1 v2 = (Inr tasks', v')"
    using Cons.prems(1) m r1 s2(1) by (simp add: a mk_def [symmetric])
  have A1: "\<forall>a\<in>set visits. dir_at (src v2) (fst a)
          \<and> (\<forall>f\<in>set (snd (snd a)). \<exists>m c. lookup (src v2) (fst a @ [f]) = Some (File m c))"
    using Cons.prems(2) s2(3) f1 by simp
  have A2: "\<forall>p\<in>P. (\<exists>m c. lookup (src v2) p = Some (File m c)) \<and> \<not> dir_at (rep v2) p"
    using P1 s2(2,3) by simp
  have A3: "set (visit_files visits) \<subseteq> P"
    using Cons.prems(4) by (auto simp: a visit_files_Cons)
  from Cons.IH [OF rest A1 A2 A3] have
    ih: "\<forall>p\<in>P. \<not> dir_at (rep v') p"
      "\<forall>a\<in>set visits. os_path_exists (rep v') (fst a)"
      "set tasks1 \<subseteq> set tasks'"
      "set tasks' \<subseteq> set tasks1 \<union> (\<lambda>p. (p, p)) ` set (visit_files visits)"
      "\<forall>p\<in>set (visit_files visits). (p, p) \<in> set tasks' \<or> up_to_date H strict (src v2) (rep v') p"
    by simp_all
  from sync_visits_effect [OF rest] have doa: "dirs_only_added (rep v1) (rep v')"
    using s2(2) by simp
  have ex: "os_path_exists (rep v') root"
    using d1 doa by (simp add: dirs_only_added_def)
  have here: "\<forall>f\<in>set files. (root @ [f], root @ [f]) \<in> set tasks'
      \<or> up_to_date H strict (src v) (rep v') (root @ [f])"
    using s2(6) ih(3) f1 up_to_date_dirs_only_added [OF doa] by auto
  have sv: "src v2 = src v" using s2(3) f1 by simp
  have vf: "set (visit_files (a # visits)) = (\<lambda>f. root @ [f]) ` set files \<union> set (visit_files visits)"
    by (simp add: a visit_files_Cons)
  have sub: "set tasks' \<subseteq> set tasks \<union> (\<lambda>p. (p, p)) ` set (visit_files (a # visits))"
  proof
    fix t assume "t \<in> set tasks'"
    with ih(4) consider "t \<in> set tasks1" | p where "p \<in> set (visit_files visits)" "t = (p, p)"
      by auto
    then show "t \<in> set tasks \<union> (\<lambda>p. (p, p)) ` set (visit_files (a # visits))"
    proof cases
      case 1
      with s2(5) consider "t \<in> set tasks" | f where "f \<in> set files" "t = (root @ [f], root @ [f])"
        by auto
      then show ?thesis
      proof cases
        case 1
        then show ?thesis by simp
      next
        case 2
        then have "root @ [f] \<in> set (visit_files (a # visits))" unfolding vf by simp
        with 2 show ?thesis by blast
      qed
    next
      case 2
      then have "p \<in> set (visit_files (a # visits))" unfolding vf by simp
      with 2 show ?thesis by blast
    qed
  qed
  have all: "\<forall>p\<in>set (visit_files (a # visits)).
      (p, p) \<in> set tasks' \<or> up_to_date H strict (src v) (rep v') p"
    unfolding vf using here ih(5) sv by auto
  have roots: "\<forall>b\<in>set (a # visits). os_path_exists (rep v') (fst b)"
    using ih(2) ex by (simp add: a)
  have mono: "set tasks \<subseteq> set tasks'" using s2(4) ih(3) by blast
  from ih(1) roots mono sub all show ?case by blast
qed

lemma walk_entries_events:
  "snd (cleanup_walk_entries S now root es)
     = concat (map (\<lambda>e. snd (cleanup_walk S now (root @ [fst e]) (snd e))) es)"
  by (induction es) (simp_all add: case_prod_unfold)

lemma stale_empty: "(\<forall>x\<in>set names. os_path_exists S (root @ [x])) \<Longrightarrow> stale S root names = []"
  by (induction names) (simp_all add: stale_def)

lemma not_stale_exists:
  "x \<in> set names \<Longrightarrow> x \<notin> set (stale S root names) \<Longrightarrow> os_path_exists S (root @ [x])"
  by (auto simp: stale_def)

lemma second_walk_silent:
  "snd (cleanup_walk S t2 root (fst (cleanup_walk S now root t))) = []"
  "\<forall>e\<in>set es. snd (cleanup_walk S t2 (root @ [fst e])
       (fst (cleanup_walk S now (root @ [fst e]) (snd e)))) = []"
proof (induction S now root t and S now root es rule: cleanup_walk_cleanup_walk_entries.induct)
  case (1 S now root m c)
  then show ?case by simp
next
  case (2 S now root s m es)
  let ?es1 = "fst (cleanup_walk_entries S now root es)"
  let ?sf = "stale S root (file_names es)"
  let ?sd = "stale S root (dir_names es)"
  define es3 where "es3 = filter (\<lambda>e. fst e \<notin> set ?sd) (filter (\<lambda>e. fst e \<notin> set ?sf) ?es1)"
  obtain m3 where node: "fst (cleanup_walk S now root (Dir s m es)) = Dir s m3 es3"
    by (simp add: cleanup_walk_node fold_delete_Dir es3_def del: cleanup_walk.simps(2))
  have each: "\<forall>e\<in>set ?es1. snd (cleanup_walk S t2 (root @ [fst e]) (snd e)) = []"
    using "2.IH" by (auto simp: walk_entries_node)
  have ev1: "snd (cleanup_walk_entries S t2 root es3) = []"
    using each by (auto simp: walk_entries_events es3_def)
  have kinds: "\<exists>c. (x, c) \<in> set es \<and> is_dir c1 = is_dir c" if "(x, c1) \<in> set ?es1" for x c1
    using that by (auto simp: walk_entries_node is_dir_cleanup_walk)
  have fn: "os_path_exists S (root @ [x])" if "x \<in> set (file_names es3)" for x
  proof -
    from that obtain c3 where c3: "(x, c3) \<in> set ?es1" "\<not> is_dir c3" "x \<notin> set ?sf"
      by (auto simp: file_names_def es3_def)
    from kinds [OF c3(1)] c3(2) have "x \<in> set (file_names es)"
      by (force simp: file_names_def)
    then show ?thesis using c3(3) by (rule not_stale_exists)
  qed
  have dn: "os_path_exists S (root @ [x])" if "x \<in> set (dir_names es3)" for x
  proof -
    from that obtain c3 where c3: "(x, c3) \<in> set ?es1" "is_dir c3" "x \<notin> set ?sd"
      by (auto simp: dir_names_def es3_def)
    from kinds [OF c3(1)] c3(2) have "x \<in> set (dir_names es)"
      by (force simp: dir_names_def)
    then show ?thesis using c3(3) by (rule not_stale_exists)
  qed
  have ev2: "stale S root (file_names es3) = []" using fn by (intro stale_empty) blast
  have ev3: "stale S root (dir_names es3) = []" using dn by (intro stale_empty) blast
  show ?case
    unfolding node
    by (simp add: case_prod_unfold cleanup_files_events cleanup_dirs_events ev1 ev2 ev3)
next
  case (3 S now root)
  then show ?case by simp
next
  case (4 S now root e es)
  from "4.IH"(1) "4.IH"(2) [OF prod.collapse] show ?case by simp
qed

lemma second_cleanup_silent:
  "new_events v (cleanup_replica v) = []"
  if "rep v = rep (cleanup_replica u)" "src v = src u"
  using that second_walk_silent(1) [of "src u" "clock v" "[]" "clock u" "rep u"]
  by (simp add: cleanup_replica_new_events) (simp add: cleanup_replica_def case_prod_unfold)

lemma exists_iff:
  "os_path_exists R q \<longleftrightarrow> dir_at R q \<or> (\<exists>m c. lookup R q = Some (File m c))"
proof (cases "lookup R q")
  case None
  then show ?thesis by (simp add: os_path_exists_def dir_at_def)
next
  case (Some n)
  then show ?thesis by (cases n) (simp_all add: os_path_exists_def dir_at_def)
qed

lemma exists_same_outside:
  "same_outside Q R R' \<Longrightarrow> q \<notin> Q \<Longrightarrow> os_path_exists R' q = os_path_exists R q"
  by (simp add: exists_iff same_outside_def)

lemma up_to_date_same_outside:
  "same_outside Q R R' \<Longrightarrow> p \<notin> Q \<Longrightarrow> up_to_date H strict S R' p = up_to_date H strict S R p"
  by (simp add: up_to_date_iff same_outside_def)

lemma up_to_date_copied:
  "lookup S p = Some (File m c) \<Longrightarrow> lookup R p = lookup S p \<Longrightarrow> up_to_date H strict S R p"
  by (simp add: up_to_date_iff)

lemma cleanup_replica_fields:
  "src (cleanup_replica v) = src v"
  "rep (cleanup_replica v) = fst (cleanup_walk (src v) (clock v) [] (rep v))"
  "trace (cleanup_replica v) = trace v @ snd (cleanup_walk (src v) (clock v) [] (rep v))"
  by (simp_all add: cleanup_replica_def case_prod_unfold)

lemma up_to_date_cleanup:
  assumes "up_to_date H strict (src v) (rep v) p"
  shows "up_to_date H strict (src v) (rep (cleanup_replica v)) p"
proof -
  from assms obtain m c c' where s: "lookup (src v) p = Some (File m c)"
    and r: "lookup (rep v) p = Some (File m c')" and c: "length c' = length c" "strict \<longrightarrow> H c' = H c"
    by (auto simp: up_to_date_iff)
  have "os_path_exists (src v) ([] @ p)" using s by (simp add: os_path_exists_def)
  from cleanup_walk_keeps [OF r this, of "clock v"]
  have "lookup (rep (cleanup_replica v)) p = Some (File m c')"
    by (simp add: cleanup_replica_fields)
  with s c show ?thesis by (simp add: up_to_date_iff)
qed

lemma exists_cleanup:
  assumes "os_path_exists (rep v) q" "os_path_exists (src v) q"
  shows "os_path_exists (rep (cleanup_replica v)) q"
proof -
  from assms(1) obtain n where n: "lookup (rep v) q = Some n" by (auto simp: os_path_exists_def)
  have "os_path_exists (src v) ([] @ q)" using assms(2) by simp
  from cleanup_walk_keeps [OF n this, of "clock v"] show ?thesis
    by (auto simp: cleanup_replica_fields os_path_exists_def)
qed

lemma first_pass_result:
  assumes wf: "wf_node (src w)"
    and nc: "\<forall>f\<in>set (faults w). \<not> undetected H (src w) f"
    and nd: "\<forall>p\<in>set (walk_files (src w)). \<not> dir_at (rep w) p"
    and pass: "synchronization H strict w = (None, w1)"
    and ok: "\<forall>e\<in>set (new_events w w1). \<not> is_failure e"
  shows "src w1 = src w
    \<and> (\<forall>a\<in>set (os_walk [] (src w)). os_path_exists (rep w1) (fst a))
    \<and> (\<forall>p\<in>set (walk_files (src w)). up_to_date H strict (src w) (rep w1) p)
    \<and> (\<exists>u. w1 = cleanup_replica u \<and> src u = src w)"
proof -
  let ?S = "src w"
  let ?P = "set (walk_files ?S)"
  obtain r wa where sd: "sync_directory H strict w = (r, wa)"
    by (cases "sync_directory H strict w")
  from pass sd obtain tasks where r: "r = Inr tasks"
    and w1: "w1 = cleanup_replica (run_tasks H tasks wa)"
    by (cases r) (auto simp: synchronization_def)
  let ?wb = "run_tasks H tasks wa"
  have sv: "sync_visits H strict (os_walk [] ?S) [] w = (Inr tasks, wa)"
    using sd r by (simp add: sync_directory_def)
  from sync_visits_effect [OF sv] obtain evs0 where
    fa: "src wa = ?S" "faults wa = faults w" "trace wa = trace w @ evs0" by blast
  have A1: "\<forall>a\<in>set (os_walk [] ?S). dir_at ?S (fst a)
          \<and> (\<forall>f\<in>set (snd (snd a)). \<exists>m c. lookup ?S (fst a @ [f]) = Some (File m c))"
  proof
    fix a assume a: "a \<in> set (os_walk [] ?S)"
    obtain root dirs files where "a = (root, dirs, files)" by (cases a)
    with os_walk_visits(1) [OF wf, of root dirs files "[]"] a
    show "dir_at ?S (fst a) \<and> (\<forall>f\<in>set (snd (snd a)). \<exists>m c. lookup ?S (fst a @ [f]) = Some (File m c))"
      by auto
  qed
  have A2: "\<forall>p\<in>?P. (\<exists>m c. lookup ?S p = Some (File m c)) \<and> \<not> dir_at (rep w) p"
    using walk_files_are_files [OF wf] nd by blast
  have A3: "set (visit_files (os_walk [] ?S)) \<subseteq> ?P" by (simp add: walk_files_def)
  from sync_visits_first [OF sv A1 A2 A3] have
    p1: "\<forall>p\<in>?P. \<not> dir_at (rep wa) p"
    and p2: "\<forall>a\<in>set (os_walk [] ?S). os_path_exists (rep wa) (fst a)"
    and p3: "set tasks \<subseteq> (\<lambda>p. (p, p)) ` ?P"
    and p4: "\<forall>p\<in>?P. (p, p) \<in> set tasks \<or> up_to_date H strict ?S (rep wa) p"
    by (simp_all add: walk_files_def)
  from run_tasks_events [of H tasks wa] obtain evs1 where
    fb: "src ?wb = src wa" "trace ?wb = trace wa @ evs1" by blast
  have tr1: "trace w1 = trace ?wb @ snd (cleanup_walk (src ?wb) (clock ?wb) [] (rep ?wb))"
    by (simp add: w1 cleanup_replica_fields)
  have "new_events w w1 = evs0 @ evs1 @ snd (cleanup_walk (src ?wb) (clock ?wb) [] (rep ?wb))"
    using fa(3) fb(2) tr1 by (simp add: new_events_def)
  with ok have nf: "\<forall>e\<in>set (new_events wa ?wb). \<not> is_failure e"
    using fb(2) by (simp add: new_events_def)
  have T1: "\<forall>t\<in>set tasks. fst t = snd t \<and> (\<exists>m c. lookup (src wa) (fst t) = Some (File m c))"
    using p3 A2 fa(1) by auto
  have T2: "\<forall>t\<in>set tasks. \<not> dir_at (rep wa) (snd t)"
    using p3 p1 by auto
  have T3: "\<forall>f\<in>set (faults wa). \<not> undetected H (src wa) f" using nc fa(1,2) by simp
  have T5: "\<forall>t\<in>set tasks. fst t \<in> set (walk_files (src wa))" using p3 fa(1) by auto
  from run_tasks_effect [OF T1 T2 T3 nf T5] have
    so: "same_outside (snd ` set tasks) (rep wa) (rep ?wb)"
    and cp: "\<forall>t\<in>set tasks. lookup (rep ?wb) (snd t) = lookup (src wa) (fst t)" by simp_all
  have sb: "src ?wb = ?S" using fb(1) fa(1) by simp
  have up_b: "up_to_date H strict ?S (rep ?wb) p" if "p \<in> ?P" for p
  proof (cases "(p, p) \<in> set tasks")
    case True
    with cp fa(1) have "lookup (rep ?wb) p = lookup ?S p" by force
    moreover from A2 that obtain m c where "lookup ?S p = Some (File m c)" by blast
    ultimately show ?thesis by (intro up_to_date_copied) auto
  next
    case False
    with p4 that have u: "up_to_date H strict ?S (rep wa) p" by blast
    have "p \<notin> snd ` set tasks"
    proof
      assume "p \<in> snd ` set tasks"
      then obtain x where "x \<in> set tasks" "snd x = p" by auto
      with T1 have "x = (p, p)" by (cases x) auto
      with \<open>x \<in> set tasks\<close> False show False by simp
    qed
    with so u show ?thesis by (simp add: up_to_date_same_outside)
  qed
  have ex_b: "os_path_exists (rep ?wb) (fst a)" if "a \<in> set (os_walk [] ?S)" for a
  proof -
    have "fst a \<notin> snd ` set tasks"
    proof
      assume "fst a \<in> snd ` set tasks"
      then obtain x where x: "x \<in> set tasks" "snd x = fst a" by auto
      with T1 fa(1) obtain m c where "lookup ?S (fst a) = Some (File m c)" by force
      moreover from A1 that have "dir_at ?S (fst a)" by blast
      ultimately show False by (simp add: dir_at_def)
    qed
    with so p2 that show ?thesis by (simp add: exists_same_outside)
  qed
  have up_1: "up_to_date H strict ?S (rep w1) p" if "p \<in> ?P" for p
    using up_to_date_cleanup [of H strict ?wb p] up_b [OF that] sb by (simp add: w1)
  have ex_1: "os_path_exists (rep w1) (fst a)" if "a \<in> set (os_walk [] ?S)" for a
  proof -
    from A1 that have "os_path_exists ?S (fst a)" by (blast intro: dir_at_exists)
    with exists_cleanup [of ?wb "fst a"] ex_b [OF that] sb show ?thesis by (simp add: w1)
  qed
  have s1: "src w1 = ?S" by (simp add: w1 cleanup_replica_fields sb)
  from s1 ex_1 up_1 w1 sb show ?thesis by blast
qed

text \<open>
  Claim C5, as amended. Take a source tree without duplicate names and a replica tree
  that has no directory at the path of a source file. If a pass completes, reports no
  task as failed, and no copy of it silently wrote bytes that the digest cannot tell from
  those of a source file, then a second pass on the trees it leaves, whatever the clock
  and whatever goes wrong with the copy step then, plans no copy task, completes, and
  does nothing but compute digests: no copy, no directory creation, no removal.
\<close>

theorem idempotent_pass:
  assumes "wf_node (src w)"
    and "\<forall>f\<in>set (faults w). \<not> undetected H (src w) f"
    and "\<forall>p\<in>set (walk_files (src w)). \<not> dir_at (rep w) p"
    and "synchronization H strict w = (None, w1)"
    and "\<forall>e\<in>set (new_events w w1). \<not> is_failure e"
  shows "fst (sync_directory H strict (w1\<lparr>clock := t, faults := fs\<rparr>)) = Inr []
    \<and> fst (synchronization H strict (w1\<lparr>clock := t, faults := fs\<rparr>)) = None
    \<and> (\<forall>e\<in>set (new_events (w1\<lparr>clock := t, faults := fs\<rparr>)
                  (snd (synchronization H strict (w1\<lparr>clock := t, faults := fs\<rparr>)))).
          is_Xxhash e)"
proof -
  let ?w2 = "w1\<lparr>clock := t, faults := fs\<rparr>"
  from first_pass_result [OF assms] obtain u where
    s1: "src w1 = src w"
    and ex: "\<forall>a\<in>set (os_walk [] (src w)). os_path_exists (rep w1) (fst a)"
    and up: "\<forall>p\<in>set (walk_files (src w)). up_to_date H strict (src w) (rep w1) p"
    and u: "w1 = cleanup_replica u" "src u = src w"
    by blast
  have pre: "\<forall>a\<in>set (os_walk [] (src ?w2)).
      os_path_exists (rep ?w2) (fst a)
      \<and> (\<forall>f\<in>set (snd (snd a)). up_to_date H strict (src ?w2) (rep ?w2) (fst a @ [f]))"
  proof
    fix a assume a: "a \<in> set (os_walk [] (src ?w2))"
    obtain root dirs files where adef: "a = (root, dirs, files)" by (cases a)
    have aw: "a \<in> set (os_walk [] (src w))" using a s1 by simp
    have "root @ [f] \<in> set (walk_files (src w))" if "f \<in> set files" for f
      using aw that adef by (force simp: walk_files_def visit_files_def)
    with up have "\<forall>f\<in>set files. up_to_date H strict (src w) (rep w1) (root @ [f])" by blast
    moreover from ex aw have "os_path_exists (rep w1) (fst a)" by blast
    ultimately show "os_path_exists (rep ?w2) (fst a)
      \<and> (\<forall>f\<in>set (snd (snd a)). up_to_date H strict (src ?w2) (rep ?w2) (fst a @ [f]))"
      using s1 adef by simp
  qed
  from sync_visits_up_to_date [OF pre, of "[]"] obtain v where
    sv: "sync_visits H strict (os_walk [] (src ?w2)) [] ?w2 = (Inr [], v)"
    and rv: "rep v = rep ?w2" "src v = src ?w2" and xv: "extends_by is_Xxhash ?w2 v"
    by blast
  have sd: "sync_directory H strict ?w2 = (Inr [], v)"
    using sv by (simp add: sync_directory_def)
  have sy: "synchronization H strict ?w2 = (None, cleanup_replica v)"
    by (simp add: synchronization_def sd)
  from xv obtain evs where tv: "trace v = trace ?w2 @ evs" "\<forall>e\<in>set evs. is_Xxhash e"
    by (auto simp: extends_by_def)
  have "new_events v (cleanup_replica v) = []"
    using rv u s1 by (intro second_cleanup_silent [of v u]) simp_all
  then have "trace (cleanup_replica v) = trace v"
    by (simp add: cleanup_replica_new_events cleanup_replica_fields)
  with tv have "new_events ?w2 (cleanup_replica v) = evs"
    by (simp add: new_events_def)
  with tv(2) sd sy show ?thesis by simp
qed


theorem idempotent_pass_witness:
  "wf_node (src world_retry)
   \<and> list_all (\<lambda>f. \<not> undetected sample_hash (src world_retry) f) (faults world_retry)
   \<and> list_all (\<lambda>p. \<not> dir_at (rep world_retry) p) (walk_files (src world_retry))
   \<and> fst (synchronization sample_hash True world_retry) = None
   \<and> list_all (\<lambda>e. \<not> is_failure e)
        (new_events world_retry (snd (synchronization sample_hash True world_retry)))
   \<and> fst (sync_directory sample_hash True
        ((snd (synchronization sample_hash True world_retry))\<lparr>clock := 10, faults := []\<rparr>)) = Inr []
   \<and> fst (synchronization sample_hash True
        ((snd (synchronization sample_hash True world_retry))\<lparr>clock := 10, faults := []\<rparr>)) = None
   \<and> list_all is_Xxhash
        (new_events ((snd (synchronization sample_hash True world_retry))\<lparr>clock := 10, faults := []\<rparr>)
          (snd (synchronization sample_hash True
            ((snd (synchronization sample_hash True world_retry))\<lparr>clock := 10, faults := []\<rparr>))))"
proof -
  let ?w1 = "snd (synchronization sample_hash True world_retry)"
  have h1: "wf_node (src world_retry)" by code_simp
  have h2: "list_all (\<lambda>f. \<not> undetected sample_hash (src world_retry) f) (faults world_retry)" by code_simp
  have h3: "list_all (\<lambda>p. \<not> dir_at (rep world_retry) p) (walk_files (src world_retry))"
    by code_simp
  have h4: "fst (synchronization sample_hash True world_retry) = None" by code_simp
  have h5: "list_all (\<lambda>e. \<not> is_failure e) (new_events world_retry ?w1)" by code_simp
  have p: "synchronization sample_hash True world_retry = (None, ?w1)"
    using h4 by (simp add: prod_eq_iff)
  from idempotent_pass [where t = 10 and fs = "[]", OF h1 h2 [unfolded list_all_iff]
      h3 [unfolded list_all_iff] p h5 [unfolded list_all_iff]]
  have "fst (sync_directory sample_hash True (?w1\<lparr>clock := 10, faults := []\<rparr>)) = Inr []
    \<and> fst (synchronization sample_hash True (?w1\<lparr>clock := 10, faults := []\<rparr>)) = None
    \<and> list_all is_Xxhash (new_events (?w1\<lparr>clock := 10, faults := []\<rparr>)
          (snd (synchronization sample_hash True (?w1\<lparr>clock := 10, faults := []\<rparr>))))"
    by (simp add: list_all_iff)
  with h1 h2 h3 h4 h5 show ?thesis by blast
qed

text \<open>
  The claim as stated fails when the path of a source file holds a directory in the
  replica with the size and the modification time of the file: the first pass without
  strict mode plans no task and completes, its clean-up removes the file \<^verbatim>\<open>x\<close> inside that
  directory, which changes the modification time of the directory, and so the second pass
  plans a copy task for \<^verbatim>\<open>p\<close> and has a removal event.
\<close>

theorem idempotent_pass_counterexample:
  "fst (synchronization sample_hash False world_dir_for_file) = None
   \<and> new_events world_dir_for_file (snd (synchronization sample_hash False world_dir_for_file))
       = [Remove [''p'', ''x''], LogInfo (FileRemoved [''p'', ''x''])]
   \<and> fst (sync_directory sample_hash False (snd (synchronization sample_hash False world_dir_for_file)))
       = Inr [([''p''], [''p''])]
   \<and> Remove [''p'', ''p'']
       \<in> set (new_events (snd (synchronization sample_hash False world_dir_for_file))
                (snd (synchronization sample_hash False
                  (snd (synchronization sample_hash False world_dir_for_file)))))"
  by code_simp

end
